theory Spec2Isabelle
  imports Complex_Main "HOL-Library.Multiset"
begin

section \<open>Qbit City: the authoritative game state and the game loop\<close>

text \<open>
  A shallow embedding of \<^verbatim>\<open>src/services/QbitCityGameStateManager.js\<close>, which holds the
  state manager (class \<^verbatim>\<open>QbitCityGameStateManager\<close>) and the game loop (class
  \<^verbatim>\<open>QbitCityGameLoop\<close>), with the rooms of \<^verbatim>\<open>src/services/RoomManager.js\<close>.

  Conventions of the embedding.
  \<^item> A JavaScript number that holds a coordinate, a speed or a time in seconds is a
    \<^typ>\<open>real\<close>; a counter and a millisecond timestamp (\<^verbatim>\<open>Date.now()\<close>) is an
    \<^typ>\<open>int\<close>. \<^verbatim>\<open>NaN\<close> and the infinities are not modelled, except in the timestamp of
    a buffered input, which is a value that the client sends.
  \<^item> An object with fields is a record. Field names carry a prefix for the kind of
    object (\<open>p_\<close> player, \<open>e_\<close> enemy, \<open>b_\<close> boat, \<open>c_\<close> coin, ...), since several
    kinds have fields \<^verbatim>\<open>x\<close>, \<^verbatim>\<open>y\<close>, \<^verbatim>\<open>id\<close>.
  \<^item> Mutation is explicit state passing: a method that mutates \<^verbatim>\<open>gameState\<close> or the
    \<^verbatim>\<open>inputBuffers\<close> map takes the old value and returns the new one.
  \<^item> \<^verbatim>\<open>Math.random()\<close> reads a fixed sequence \<open>rnd :: nat \<Rightarrow> real\<close> of future results at
    a position that every call advances by one.
\<close>

subsection \<open>Constants\<close>

definition TILE_SIZE :: int where "TILE_SIZE = 64"
definition MAP_WIDTH :: int where "MAP_WIDTH = 50"
definition MAP_HEIGHT :: int where "MAP_HEIGHT = 50"
definition BASE_PLAYER_SPEED :: real where "BASE_PLAYER_SPEED = 300"
definition BASE_ENEMY_SPEED :: real where "BASE_ENEMY_SPEED = 250"
definition IMMUNITY_DURATION :: real where "IMMUNITY_DURATION = 10"
definition COLLECTIBLES_START_TIME :: real where "COLLECTIBLES_START_TIME = 30"
definition COINS_FOR_IMMUNITY :: int where "COINS_FOR_IMMUNITY = 5"
definition MAX_IMMUNITY_INVENTORY :: int where "MAX_IMMUNITY_INVENTORY = 3"

subsection \<open>The input buffer\<close>

text \<open>
  The payload of a \<^verbatim>\<open>player_input\<close> event carries a map \<^verbatim>\<open>keys\<close> of pressed keys, of
  which the loop reads eight by truthiness; the map may be missing
  (\<^verbatim>\<open>input.keys || {}\<close>). A buffered input is the payload with the fields
  \<^verbatim>\<open>timestamp\<close> and \<^verbatim>\<open>processed\<close> set by \<^verbatim>\<open>bufferPlayerInput\<close>.
\<close>

record keyset =
  ArrowUp :: bool
  ArrowDown :: bool
  ArrowLeft :: bool
  ArrowRight :: bool
  KeyW :: bool
  KeyA :: bool
  KeyS :: bool
  KeyD :: bool

text \<open>
  The handler of \<^verbatim>\<open>player_input\<close> (\<^verbatim>\<open>src/handlers/qbitCityGameHandlers.js\<close>) passes
  \<^verbatim>\<open>inputData.timestamp || Date.now()\<close> to \<^verbatim>\<open>bufferPlayerInput\<close>: the value that the client
  sent when it is truthy, of whatever type, else the clock. The buffer and the loop use a
  timestamp as a number only: in \<^verbatim>\<open>a.timestamp - b.timestamp\<close>, in
  \<^verbatim>\<open>input.timestamp <= currentTime\<close>, in \<^verbatim>\<open>currentTime - input.timestamp < 1000\<close>, and in
  \<^verbatim>\<open>input.timestamp > latestInput.timestamp\<close> between two timestamps that have passed
  \<^verbatim>\<open><= currentTime\<close>. A timestamp is modelled as the number that it converts to: \<open>Num x\<close>,
  or \<open>NaN\<close> for a value that is no number, such as the string \<^verbatim>\<open>"x"\<close> or a plain object.
  (A string that spells a number, a boolean, an array and an object whose conversion
  throws are left out.) A comparison with \<^verbatim>\<open>NaN\<close> is false, and a difference with
  \<^verbatim>\<open>NaN\<close> is \<^verbatim>\<open>NaN\<close>.
\<close>

datatype jsNumber = Num real | NaN

fun jsLe :: "jsNumber \<Rightarrow> jsNumber \<Rightarrow> bool" where
  "jsLe (Num a) (Num b) = (a \<le> b)"
| "jsLe _ _ = False"

fun jsLt :: "jsNumber \<Rightarrow> jsNumber \<Rightarrow> bool" where
  "jsLt (Num a) (Num b) = (a < b)"
| "jsLt _ _ = False"

fun jsMinus :: "jsNumber \<Rightarrow> jsNumber \<Rightarrow> jsNumber" where
  "jsMinus (Num a) (Num b) = Num (a - b)"
| "jsMinus _ _ = NaN"

record input =
  keys :: "keyset option"
  timestamp :: jsNumber
  processed :: bool

type_synonym playerId = string

type_synonym inputBuffers = "playerId \<rightharpoonup> input list"

text \<open>
  \<^verbatim>\<open>Array.prototype.sort(comparefn)\<close>, as V8, the engine of Node, runs it on an array of
  fewer than 64 elements (a buffer holds at most 61 when it is sorted): one run and no
  merge. \<open>neg a b\<close> says that \<^verbatim>\<open>comparefn(a, b)\<close> is negative; a result \<^verbatim>\<open>NaN\<close> counts as 0.
  \<^item> \<open>countAndMakeRun\<close> finds the run at the start of the array: the longest prefix in which
    no element is less than the one before it, or, when the second element is less than
    the first, the longest prefix in which every element is less than the one before
    it, which is then reversed. It returns the array and the length of the run.
  \<^item> \<open>binaryInsertionSort\<close> inserts each later element into the run, at the place that a
    binary search gives (\<open>findInsertionPoint\<close>, between \<open>left\<close> and \<open>right\<close>), moving the
    elements from that place on by one.

  When the comparator compares a key, the outcome is the stable sort by that key, which
  is what ECMAScript requires of a consistent comparator (lemma \<open>jsSort_sort_key\<close> below).
  When the comparator is not consistent, as with a result \<^verbatim>\<open>NaN\<close>, ECMAScript leaves the
  order to the implementation, and this is what V8 does.
\<close>

fun runLength :: "('a \<Rightarrow> 'a \<Rightarrow> bool) \<Rightarrow> bool \<Rightarrow> 'a \<Rightarrow> 'a list \<Rightarrow> nat" where
  "runLength neg desc prev [] = 0"
| "runLength neg desc prev (cur # rest) =
     (if neg cur prev = desc then Suc (runLength neg desc cur rest) else 0)"

definition countAndMakeRun :: "('a \<Rightarrow> 'a \<Rightarrow> bool) \<Rightarrow> 'a list \<Rightarrow> 'a list \<times> nat" where
  "countAndMakeRun neg xs =
     (case xs of
        x0 # x1 # rest \<Rightarrow>
          (let desc = neg x1 x0;
               n = 2 + runLength neg desc x1 rest
           in ((if desc then rev (take n xs) else take n xs) @ drop n xs, n))
      | _ \<Rightarrow> (xs, length xs))"

function findInsertionPoint ::
  "('a \<Rightarrow> 'a \<Rightarrow> bool) \<Rightarrow> 'a \<Rightarrow> 'a list \<Rightarrow> nat \<Rightarrow> nat \<Rightarrow> nat" where
  "findInsertionPoint neg pivot xs left right =
     (if left < right
      then (let mid = left + (right - left) div 2
            in if neg pivot (xs ! mid)
               then findInsertionPoint neg pivot xs left mid
               else findInsertionPoint neg pivot xs (mid + 1) right)
      else left)"
  by pat_completeness auto
termination
  by (relation "measure (\<lambda>(neg, pivot, xs, left, right). right - left)") auto

declare findInsertionPoint.simps [simp del]

definition insertStep :: "('a \<Rightarrow> 'a \<Rightarrow> bool) \<Rightarrow> nat \<Rightarrow> 'a list \<Rightarrow> 'a list" where
  "insertStep neg start xs =
     (let pivot = xs ! start;
          left = findInsertionPoint neg pivot xs 0 start
      in take left xs @ pivot # take (start - left) (drop left xs) @ drop (Suc start) xs)"

definition binaryInsertionSort :: "('a \<Rightarrow> 'a \<Rightarrow> bool) \<Rightarrow> nat \<Rightarrow> 'a list \<Rightarrow> 'a list" where
  "binaryInsertionSort neg start xs = fold (insertStep neg) [start ..< length xs] xs"

definition jsSort :: "('a \<Rightarrow> 'a \<Rightarrow> bool) \<Rightarrow> 'a list \<Rightarrow> 'a list" where
  "jsSort neg xs =
     (if length xs < 2 then xs
      else (let (ys, n) = countAndMakeRun neg xs in binaryInsertionSort neg n ys))"

text \<open>The comparator \<^verbatim>\<open>(a, b) => a.timestamp - b.timestamp\<close>: whether its result is negative.\<close>

definition byTimestamp :: "input \<Rightarrow> input \<Rightarrow> bool" where
  "byTimestamp a b = jsLt (jsMinus (timestamp a) (timestamp b)) (Num 0)"

text \<open>
  \<open>bufferOf\<close> is \<^verbatim>\<open>inputBuffers.get(playerId) || []\<close>.
  \<^verbatim>\<open>bufferPlayerInput(playerId, input, timestamp)\<close>: create the buffer if the player has
  none, push \<^verbatim>\<open>{ ...input, timestamp, processed: false }\<close>, sort with the comparator, and
  drop the first entry when more than 60 are held.
\<close>

definition bufferOf :: "inputBuffers \<Rightarrow> playerId \<Rightarrow> input list" where
  "bufferOf bufs playerId = (case bufs playerId of None \<Rightarrow> [] | Some b \<Rightarrow> b)"

definition bufferPlayerInput ::
  "inputBuffers \<Rightarrow> playerId \<Rightarrow> input \<Rightarrow> jsNumber \<Rightarrow> inputBuffers" where
  "bufferPlayerInput bufs playerId inp ts =
     (let buffer = bufferOf bufs playerId;
          pushed = buffer @ [inp\<lparr>timestamp := ts, processed := False\<rparr>];
          ordered = jsSort byTimestamp pushed;
          limited = (if length ordered > 60 then tl ordered else ordered)
      in bufs(playerId \<mapsto> limited))"

text \<open>
  A buffer is in timestamp order when no entry has a timestamp greater than a later
  one's, as \<^verbatim>\<open><=\<close> compares them, which is what the comment
  \<^verbatim>\<open>// Keep buffer sorted by timestamp\<close> promises. \<open>bufferOk\<close> is the invariant of a buffer
  none of whose timestamps is \<^verbatim>\<open>NaN\<close>: at most 60 entries, in timestamp order.
  \<open>timestampOf\<close> reads the number of such a timestamp.
\<close>

definition tsOrdered :: "input list \<Rightarrow> bool" where
  "tsOrdered b = sorted_wrt (\<lambda>a c. jsLe (timestamp a) (timestamp c)) b"

definition numericBuffer :: "input list \<Rightarrow> bool" where
  "numericBuffer b = (\<forall>inp \<in> set b. timestamp inp \<noteq> NaN)"

definition timestampOf :: "input \<Rightarrow> real" where
  "timestampOf inp = (case timestamp inp of Num x \<Rightarrow> x | NaN \<Rightarrow> 0)"

definition bufferOk :: "input list \<Rightarrow> bool" where
  "bufferOk b = (length b \<le> 60 \<and> numericBuffer b \<and> tsOrdered b)"

definition buffersOk :: "inputBuffers \<Rightarrow> bool" where
  "buffersOk bufs = (\<forall>playerId b. bufs playerId = Some b \<longrightarrow> bufferOk b)"

subsection \<open>The world: map, players and the other entities\<close>

text \<open>
  Generated identifiers are template strings: \<^verbatim>\<open>boat_${i}\<close> and \<^verbatim>\<open>portal_${n}\<close> carry an
  index, \<^verbatim>\<open>coin_${Date.now()}_${Math.random()}\<close> and its like carry a clock reading and a
  random number.
\<close>

datatype ident = Indexed string nat | Stamped string int real

record building =
  bd_gridX :: int
  bd_gridY :: int
  bd_x :: int
  bd_y :: int
  bd_w :: int
  bd_h :: int
  bd_height :: real
  bd_color :: string
  bd_wallColor :: string
  bd_type :: nat

record tree =
  tr_x :: real
  tr_y :: real
  tr_r :: real

text \<open>
  The tile grid \<^verbatim>\<open>map.tiles[y][x]\<close> is a list of rows; a tile is its number in the source:
  0 road, 1 sidewalk (a building stands on it), 2 grass, 3 water, 4 lava.
\<close>

record gameMap =
  gm_width :: int
  gm_height :: int
  gm_tiles :: "nat list list"
  gm_buildings :: "building list"
  gm_trees :: "tree list"

definition tileAt :: "gameMap \<Rightarrow> int \<Rightarrow> int \<Rightarrow> nat" where
  "tileAt m gx gy = gm_tiles m ! nat gy ! nat gx"

record player =
  p_id :: playerId
  p_name :: string
  p_x :: real
  p_y :: real
  p_width :: real
  p_height :: real
  p_speed :: real
  p_velX :: real
  p_velY :: real
  p_dirX :: real
  p_dirY :: real
  p_trail :: "(real \<times> real) list"
  p_portalCooldown :: real
  p_coinsCollected :: int
  p_immunityInventory :: int
  p_sinkInventory :: int
  p_energy :: real
  p_immunityActive :: bool
  p_immunityEndTime :: real

record enemy =
  e_id :: ident
  e_x :: real
  e_y :: real
  e_width :: real
  e_height :: real
  e_speed :: real
  e_trail :: "(real \<times> real) list"
  e_stuckTime :: real
  e_flankTimer :: real
  e_flankDir :: "real \<times> real"

record boat =
  b_id :: ident
  b_dist :: real
  b_x :: real
  b_y :: real
  b_w :: real
  b_h :: real
  b_velX :: real
  b_velY :: real
  b_life :: real
  b_maxLife :: real

record coin =
  c_id :: ident
  c_x :: real
  c_y :: real
  c_collected :: bool
  c_spawnTime :: real

record immunityPickup =
  ip_id :: ident
  ip_x :: real
  ip_y :: real
  ip_collected :: bool
  ip_quadrant :: nat
  ip_spawnTime :: real

record sinkCollectible =
  sc_id :: ident
  sc_x :: real
  sc_y :: real
  sc_collected :: bool
  sc_spawnTime :: real

record deployedSink =
  ds_id :: ident
  ds_x :: real
  ds_y :: real
  ds_deployTime :: real

text \<open>
  A portal of the map has no \<^verbatim>\<open>life\<close>; a portal a player creates has one. The colour
  of a portal is a string, \<^verbatim>\<open>'#ff00ff'\<close> or \<^verbatim>\<open>hsl(${n * 90}, 100%, 50%)\<close>.
\<close>

datatype color = Hex string | Hsl nat nat nat

record portal =
  po_id :: ident
  po_x :: real
  po_y :: real
  po_color :: color
  po_angle :: real
  po_life :: "real option"

record gameState =
  gs_roomCode :: string
  gs_map :: gameMap
  gs_players :: "player list"
  gs_enemies :: "enemy list"
  gs_boats :: "boat list"
  gs_coins :: "coin list"
  gs_immunityPickups :: "immunityPickup list"
  gs_sinkCollectibles :: "sinkCollectible list"
  gs_deployedSinks :: "deployedSink list"
  gs_portals :: "portal list"
  gs_gameTime :: real
  gs_enemySpawnTimer :: real
  gs_coinSpawnTimer :: real
  gs_immunityPickupSpawnTimer :: real
  gs_sinkSpawnTimer :: real
  gs_nextCoinSpawnTime :: real
  gs_nextImmunityPickupSpawnTime :: real
  gs_nextSinkSpawnTime :: real
  gs_collectiblesInitialized :: bool
  gs_coinsInitialized :: bool
  gs_speedBoostApplied :: bool
  gs_mapSeed :: int

subsection \<open>Movement and the collision test against the tile grid\<close>

text \<open>
  \<^verbatim>\<open>checkCollision(x, y, width, height, map, isPlayer)\<close> looks at the 3 by 3 tiles around
  the tile of the centre, skips the ones outside the grid, and returns true at the first
  solid tile whose square meets the box. The loop has no effect but its result, so it is
  an existential over the nine tiles.
\<close>

definition solid :: "bool \<Rightarrow> nat \<Rightarrow> bool" where
  "solid isPlayer tile = ((tile = 1 \<or> tile = 3) \<or> (tile = 4 \<and> \<not> isPlayer))"

definition checkCollision :: "real \<Rightarrow> real \<Rightarrow> real \<Rightarrow> real \<Rightarrow> gameMap \<Rightarrow> bool \<Rightarrow> bool" where
  "checkCollision x y width height m isPlayer =
     (let halfW = width / 2;
          halfH = height / 2;
          l = x - halfW;
          r = x + halfW;
          t = y - halfH;
          b = y + halfH;
          gridX = \<lfloor>x / real_of_int TILE_SIZE\<rfloor>;
          gridY = \<lfloor>y / real_of_int TILE_SIZE\<rfloor>
      in list_ex (\<lambda>gy. list_ex (\<lambda>gx.
           gy \<ge> 0 \<and> gy < MAP_HEIGHT \<and> gx \<ge> 0 \<and> gx < MAP_WIDTH \<and>
           solid isPlayer (tileAt m gx gy) \<and>
           (let bx = real_of_int (gx * TILE_SIZE);
                by = real_of_int (gy * TILE_SIZE)
            in l < bx + real_of_int TILE_SIZE \<and> r > bx \<and>
               t < by + real_of_int TILE_SIZE \<and> b > by))
           [gridX - 1 .. gridX + 1]) [gridY - 1 .. gridY + 1])"

text \<open>
  For the statement of the solidity rules: tile \<open>(gx, gy)\<close> is examined by the test at
  \<open>(x, y)\<close> when it is in the grid and one of the nine tiles around the tile of \<open>(x, y)\<close>;
  the box of the given width and height centred at \<open>(x, y)\<close> meets the square of the tile.
\<close>

definition examined :: "real \<Rightarrow> real \<Rightarrow> int \<Rightarrow> int \<Rightarrow> bool" where
  "examined x y gx gy =
     (\<lfloor>x / real_of_int TILE_SIZE\<rfloor> - 1 \<le> gx \<and> gx \<le> \<lfloor>x / real_of_int TILE_SIZE\<rfloor> + 1 \<and>
      \<lfloor>y / real_of_int TILE_SIZE\<rfloor> - 1 \<le> gy \<and> gy \<le> \<lfloor>y / real_of_int TILE_SIZE\<rfloor> + 1 \<and>
      0 \<le> gx \<and> gx < MAP_WIDTH \<and> 0 \<le> gy \<and> gy < MAP_HEIGHT)"

definition tileOverlap :: "real \<Rightarrow> real \<Rightarrow> real \<Rightarrow> real \<Rightarrow> int \<Rightarrow> int \<Rightarrow> bool" where
  "tileOverlap x y width height gx gy =
     (x - width / 2 < real_of_int (gx * TILE_SIZE) + real_of_int TILE_SIZE \<and>
      x + width / 2 > real_of_int (gx * TILE_SIZE) \<and>
      y - height / 2 < real_of_int (gy * TILE_SIZE) + real_of_int TILE_SIZE \<and>
      y + height / 2 > real_of_int (gy * TILE_SIZE))"

text \<open>
  \<^verbatim>\<open>applyInputToPlayer(player, input, deltaTime, gameState)\<close>. Of \<^verbatim>\<open>gameState\<close> it reads
  the map and the game time.
\<close>

definition noKeys :: keyset where
  "noKeys = \<lparr>ArrowUp = False, ArrowDown = False, ArrowLeft = False, ArrowRight = False,
             KeyW = False, KeyA = False, KeyS = False, KeyD = False\<rparr>"

text \<open>The direction \<^verbatim>\<open>(dx, dy)\<close> of the pressed keys, normalised when not zero.\<close>

definition inputDirection :: "input \<Rightarrow> real \<times> real" where
  "inputDirection inp =
     (let ks = (case keys inp of None \<Rightarrow> noKeys | Some k \<Rightarrow> k);
          dy0 = (if ArrowUp ks \<or> KeyW ks then - 1 else 0);
          dy1 = (if ArrowDown ks \<or> KeyS ks then 1 else dy0);
          dx0 = (if ArrowLeft ks \<or> KeyA ks then - 1 else 0);
          dx1 = (if ArrowRight ks \<or> KeyD ks then 1 else dx0);
          len = sqrt (dx1 * dx1 + dy1 * dy1)
      in if dx1 \<noteq> 0 \<or> dy1 \<noteq> 0 then (dx1 / len, dy1 / len) else (dx1, dy1))"

text \<open>The facing direction, the velocity, and the move along each axis that is free.\<close>

definition applyMovement :: "real \<Rightarrow> real \<Rightarrow> real \<Rightarrow> gameMap \<Rightarrow> player \<Rightarrow> player" where
  "applyMovement dx dy deltaTime m player =
     (let pl1 = (if dx \<noteq> 0 \<or> dy \<noteq> 0 then player\<lparr>p_dirX := dx, p_dirY := dy\<rparr> else player);
          pl2 = pl1\<lparr>p_velX := dx * p_speed pl1, p_velY := dy * p_speed pl1\<rparr>;
          newX = p_x pl2 + p_velX pl2 * deltaTime;
          newY = p_y pl2 + p_velY pl2 * deltaTime
      in if checkCollision newX (p_y pl2) (p_width pl2) (p_height pl2) m True
         then
           (if \<not> checkCollision (p_x pl2) newY (p_width pl2) (p_height pl2) m True
            then pl2\<lparr>p_y := newY\<rparr> else pl2)
         else if checkCollision (p_x pl2) newY (p_width pl2) (p_height pl2) m True
         then pl2\<lparr>p_x := newX\<rparr>
         else pl2\<lparr>p_x := newX, p_y := newY\<rparr>)"

definition updateEnergy :: "real \<Rightarrow> real \<Rightarrow> real \<Rightarrow> player \<Rightarrow> player" where
  "updateEnergy dx dy deltaTime player =
     (if dx \<noteq> 0 \<or> dy \<noteq> 0
      then player\<lparr>p_energy := min 1 (p_energy player + deltaTime * 0.3)\<rparr> else player)"

definition updateTrail :: "real \<Rightarrow> real \<Rightarrow> player \<Rightarrow> player" where
  "updateTrail dx dy player =
     (if dx \<noteq> 0 \<or> dy \<noteq> 0
      then (let pushed = p_trail player @ [(p_x player, p_y player)]
            in player\<lparr>p_trail := (if length pushed > 20 then tl pushed else pushed)\<rparr>)
      else player)"

definition updatePortalCooldown :: "real \<Rightarrow> player \<Rightarrow> player" where
  "updatePortalCooldown deltaTime player =
     (if p_portalCooldown player > 0
      then player\<lparr>p_portalCooldown := p_portalCooldown player - deltaTime\<rparr> else player)"

definition updateImmunity :: "real \<Rightarrow> player \<Rightarrow> player" where
  "updateImmunity gameTime player =
     (if p_immunityActive player \<and> gameTime \<ge> p_immunityEndTime player
      then player\<lparr>p_immunityActive := False\<rparr> else player)"

text \<open>
  \<^verbatim>\<open>applyInputToPlayer\<close> runs the blocks above in the order of the source: direction,
  velocity and movement with collision, energy, trail, portal cooldown, immunity.
\<close>

definition applyInputToPlayer :: "player \<Rightarrow> input \<Rightarrow> real \<Rightarrow> gameState \<Rightarrow> player" where
  "applyInputToPlayer player inp deltaTime gameState =
     (let (dx, dy) = inputDirection inp
      in updateImmunity (gs_gameTime gameState)
           (updatePortalCooldown deltaTime
             (updateTrail dx dy
               (updateEnergy dx dy deltaTime
                 (applyMovement dx dy deltaTime (gs_map gameState) player)))))"

subsection \<open>Consuming the input buffer\<close>

text \<open>An input the loop may select: not yet processed, and not in the future.\<close>

definition eligible :: "int \<Rightarrow> input \<Rightarrow> bool" where
  "eligible currentTime inp =
     (\<not> processed inp \<and> jsLe (timestamp inp) (Num (real_of_int currentTime)))"

text \<open>
  The selection loop of \<^verbatim>\<open>processPlayerInputs\<close> runs \<open>i\<close> from the last index down to 0
  and keeps in \<^verbatim>\<open>latestIndex\<close> the index of an unprocessed input with
  \<^verbatim>\<open>timestamp <= currentTime\<close> whose timestamp is greater than the one held.
  \<open>selectLatest buffer currentTime n latest\<close> is the loop with \<open>n\<close> indices left.
\<close>

fun selectLatest :: "input list \<Rightarrow> int \<Rightarrow> nat \<Rightarrow> nat option \<Rightarrow> nat option" where
  "selectLatest buffer currentTime 0 latest = latest"
| "selectLatest buffer currentTime (Suc i) latest =
     (let inp = buffer ! i
      in selectLatest buffer currentTime i
           (if \<not> processed inp \<and> jsLe (timestamp inp) (Num (real_of_int currentTime)) \<and>
               (case latest of None \<Rightarrow> True
                | Some j \<Rightarrow> jsLt (timestamp (buffer ! j)) (timestamp inp))
            then Some i else latest))"

text \<open>
  With an input selected at \<open>latestIndex\<close>: it is marked processed, and so is every input
  before it in the buffer whose timestamp is at most \<^verbatim>\<open>currentTime\<close>.
\<close>

definition markProcessed :: "input list \<Rightarrow> int \<Rightarrow> nat \<Rightarrow> input list" where
  "markProcessed buffer currentTime latestIndex =
     map (\<lambda>(i, inp).
            if i = latestIndex \<or>
               (i < latestIndex \<and> jsLe (timestamp inp) (Num (real_of_int currentTime)))
            then inp\<lparr>processed := True\<rparr> else inp)
         (zip [0 ..< length buffer] buffer)"

text \<open>The buffer after the marking, before old processed inputs are removed.\<close>

definition markedBuffer :: "input list \<Rightarrow> int \<Rightarrow> input list" where
  "markedBuffer buffer currentTime =
     (case selectLatest buffer currentTime (length buffer) None of
        None \<Rightarrow> buffer
      | Some latestIndex \<Rightarrow> markProcessed buffer currentTime latestIndex)"

text \<open>
  The callback of \<^verbatim>\<open>gameState.players.forEach\<close> in \<^verbatim>\<open>processPlayerInputs\<close>, for one
  player: it returns the player and the map of buffers after it.
\<close>

definition processPlayer ::
  "gameState \<Rightarrow> real \<Rightarrow> int \<Rightarrow> player \<Rightarrow> inputBuffers \<Rightarrow> player \<times> inputBuffers" where
  "processPlayer gameState deltaTime currentTime player bufs =
     (let buffer = bufferOf bufs (p_id player);
          player' =
            (case selectLatest buffer currentTime (length buffer) None of
               None \<Rightarrow> player
             | Some latestIndex \<Rightarrow>
                 applyInputToPlayer player (buffer ! latestIndex) deltaTime gameState);
          activeBuffer =
            filter (\<lambda>inp. \<not> processed inp \<or>
                      jsLt (jsMinus (Num (real_of_int currentTime)) (timestamp inp)) (Num 1000))
              (markedBuffer buffer currentTime)
      in (player', bufs(p_id player \<mapsto> activeBuffer)))"

fun processPlayers ::
  "gameState \<Rightarrow> real \<Rightarrow> int \<Rightarrow> player list \<Rightarrow> inputBuffers \<Rightarrow> player list \<times> inputBuffers" where
  "processPlayers gameState deltaTime currentTime [] bufs = ([], bufs)"
| "processPlayers gameState deltaTime currentTime (player # rest) bufs =
     (let (player', bufs') = processPlayer gameState deltaTime currentTime player bufs;
          (rest', bufs'') = processPlayers gameState deltaTime currentTime rest bufs'
      in (player' # rest', bufs''))"

definition processPlayerInputs ::
  "gameState \<Rightarrow> real \<Rightarrow> int \<Rightarrow> inputBuffers \<Rightarrow> gameState \<times> inputBuffers" where
  "processPlayerInputs gameState deltaTime currentTime bufs =
     (let (players', bufs') =
            processPlayers gameState deltaTime currentTime (gs_players gameState) bufs
      in (gameState\<lparr>gs_players := players'\<rparr>, bufs'))"

text \<open>
  The maps of buffers the program can hold. The map starts empty; \<^verbatim>\<open>bufferPlayerInput\<close>
  pushes, every tick runs \<^verbatim>\<open>processPlayerInputs\<close> for a room, and \<^verbatim>\<open>respawnPlayer\<close> and
  \<^verbatim>\<open>cleanupRoom\<close> delete a player's buffer. Nothing else writes the map.
\<close>

inductive reachableBuffers :: "inputBuffers \<Rightarrow> bool" where
  created: "reachableBuffers Map.empty"
| pushed: "reachableBuffers bufs \<Longrightarrow> reachableBuffers (bufferPlayerInput bufs playerId inp ts)"
| ticked: "reachableBuffers bufs \<Longrightarrow>
     reachableBuffers (snd (processPlayerInputs gameState deltaTime currentTime bufs))"
| deleted: "reachableBuffers bufs \<Longrightarrow> reachableBuffers (bufs(playerId := None))"

text \<open>
  What the selection loop has found when the indices from \<open>lo\<close> up to \<open>hi\<close> are done:
  nothing if none of them is eligible, else an eligible index of greatest timestamp, the
  last one of that timestamp.
\<close>

definition selected :: "input list \<Rightarrow> int \<Rightarrow> nat \<Rightarrow> nat \<Rightarrow> nat option \<Rightarrow> bool" where
  "selected b currentTime lo hi r =
     (case r of
        None \<Rightarrow> (\<forall>m. lo \<le> m \<and> m < hi \<longrightarrow> \<not> eligible currentTime (b ! m))
      | Some k \<Rightarrow> lo \<le> k \<and> k < hi \<and> eligible currentTime (b ! k) \<and>
          (\<forall>m. lo \<le> m \<and> m < hi \<and> eligible currentTime (b ! m) \<longrightarrow>
             jsLe (timestamp (b ! m)) (timestamp (b ! k)) \<and>
             (timestamp (b ! m) = timestamp (b ! k) \<longrightarrow> m \<le> k)))"

subsection \<open>The map generator\<close>

text \<open>
  A seed is an integer (\<^verbatim>\<open>Date.now()\<close> when the caller gives none). The arithmetic of the
  generator is that of JavaScript numbers: an integer result beyond \<open>2^53\<close> is rounded to
  the nearest number with a significand of 53 bits, ties to the even one
  (\<open>roundDouble\<close>, where \<open>bitLength a\<close> is the number of binary digits of \<open>a\<close>), and
  \<^verbatim>\<open>%\<close> is the remainder of the truncating division, exact, with the sign of the
  dividend (\<open>jsRem\<close>). The result \<^verbatim>\<open>value / 233280\<close> of the generator is compared with
  0.05, 0.15, 0.3, 0.8 and 0.9, each of them a multiple of \<open>1 / 233280\<close>, so the comparisons
  of the source and those of the quotient as a real number agree.
\<close>

function bitLength :: "int \<Rightarrow> nat" where
  "bitLength a = (if a \<le> 0 then 0 else Suc (bitLength (a div 2)))"
  by pat_completeness auto
termination
  by (relation "measure nat") auto

definition roundDouble :: "int \<Rightarrow> int" where
  "roundDouble n =
     (let a = \<bar>n\<bar>
      in if a < 2 ^ 53 then n
         else
           (let e = bitLength a - 53;
                q = a div 2 ^ e;
                r = a mod 2 ^ e;
                h = 2 ^ (e - 1);
                q' = (if r > h \<or> (r = h \<and> odd q) then q + 1 else q)
            in sgn n * (q' * 2 ^ e)))"

definition jsRem :: "int \<Rightarrow> int \<Rightarrow> int" where
  "jsRem a n = sgn a * (\<bar>a\<bar> mod \<bar>n\<bar>)"

text \<open>
  One call of the closure that \<^verbatim>\<open>seededRandom(seed)\<close> returns, the closure holding
  \<open>rngValue\<close>: the new \<^verbatim>\<open>value\<close> and the result \<^verbatim>\<open>value / 233280\<close>.
\<close>

definition seededRandom :: "int \<Rightarrow> int \<times> real" where
  "seededRandom rngValue =
     (let v = jsRem (roundDouble (roundDouble (rngValue * 9301) + 49297)) 233280
      in (v, real_of_int v / 233280))"

text \<open>\<^verbatim>\<open>tiles[y][x] = t\<close>.\<close>

definition setTile :: "nat list list \<Rightarrow> nat \<Rightarrow> nat \<Rightarrow> nat \<Rightarrow> nat list list" where
  "setTile tiles y x t = tiles[y := (tiles ! y)[x := t]]"

text \<open>
  The 3 by 3 blot of water around \<open>(x, y)\<close>: every cell of it inside the grid that is not
  a road at that moment becomes water.
\<close>

definition waterBlot :: "nat list list \<Rightarrow> nat \<Rightarrow> nat \<Rightarrow> nat list list" where
  "waterBlot tiles y x =
     fold (\<lambda>ly. fold (\<lambda>lx ts.
             if ly \<ge> 0 \<and> ly < MAP_HEIGHT \<and> lx \<ge> 0 \<and> lx < MAP_WIDTH
             then (if ts ! nat ly ! nat lx \<noteq> 0 then setTile ts (nat ly) (nat lx) 3 else ts)
             else ts)
           [int x - 1 .. int x + 1])
       [int y - 1 .. int y + 1] tiles"

text \<open>
  The body of the loop that lays roads, water and grass, at cell \<open>(x, y)\<close>; the state is
  the grid and the generator's \<^verbatim>\<open>value\<close>.
\<close>

definition terrainCell :: "nat \<Rightarrow> nat \<Rightarrow> nat list list \<times> int \<Rightarrow> nat list list \<times> int" where
  "terrainCell y x st =
     (let (tiles, rngValue) = st;
          blockSize = 4;
          isRoadRow = (y mod blockSize = 0);
          isRoadCol = (x mod blockSize = 0)
      in if isRoadRow \<or> isRoadCol then (setTile tiles y x 0, rngValue)
         else
           (let (rngValue', rand) = seededRandom rngValue
            in if rand < 0.05 then (waterBlot tiles y x, rngValue')
               else if rand < 0.15 then (setTile tiles y x 2, rngValue')
               else (tiles, rngValue')))"

definition terrainPass :: "nat list list \<times> int \<Rightarrow> nat list list \<times> int" where
  "terrainPass st =
     fold (\<lambda>y. fold (\<lambda>x. terrainCell y x) [0 ..< nat MAP_WIDTH]) [0 ..< nat MAP_HEIGHT] st"

text \<open>The loop that sets the perimeter to lava.\<close>

definition lavaCell :: "nat \<Rightarrow> nat \<Rightarrow> nat list list \<Rightarrow> nat list list" where
  "lavaCell y x tiles =
     (if int x = 0 \<or> int x = MAP_WIDTH - 1 \<or> int y = 0 \<or> int y = MAP_HEIGHT - 1
      then setTile tiles y x 4 else tiles)"

definition lavaPass :: "nat list list \<Rightarrow> nat list list" where
  "lavaPass tiles =
     fold (\<lambda>y. fold (\<lambda>x. lavaCell y x) [0 ..< nat MAP_WIDTH]) [0 ..< nat MAP_HEIGHT] tiles"

text \<open>
  The loop that derives buildings and trees, at cell \<open>(x, y)\<close>; the state is the two lists
  and the generator's \<^verbatim>\<open>value\<close>. On a sidewalk tile it draws twice, and a third time
  for a shop or a cafe; on a grass tile it draws once, and three times more for a tree.
\<close>

definition decorCell ::
  "nat list list \<Rightarrow> nat \<Rightarrow> nat \<Rightarrow> building list \<times> tree list \<times> int \<Rightarrow>
   building list \<times> tree list \<times> int" where
  "decorCell tiles y x st =
     (let (buildings, trees, v0) = st;
          tile = tiles ! y ! x;
          px = int x * TILE_SIZE;
          py = int y * TILE_SIZE
      in if tile = 1 then
           (let (v1, rand) = seededRandom v0;
                (v2, r2) = seededRandom v1;
                (v3, r3) = seededRandom v2;
                (v', type, height, color, wallColor) =
                  (if rand > 0.9 then (v3, 1, 30 + r3 * 20, ''#331133'', ''#220022'')
                   else if rand > 0.8 then (v3, 2, 25 + r3 * 15, ''#2e3b2e'', ''#1a221a'')
                   else (v2, 0, 40 + r2 * 60, ''#252525'', ''#151515''))
            in (buildings @
                  [\<lparr>bd_gridX = int x, bd_gridY = int y, bd_x = px, bd_y = py,
                    bd_w = TILE_SIZE, bd_h = TILE_SIZE, bd_height = height, bd_color = color,
                    bd_wallColor = wallColor, bd_type = type\<rparr>],
                trees, v'))
         else if tile = 2 then
           (let (v1, r1) = seededRandom v0;
                (v2, r2) = seededRandom v1;
                (v3, r3) = seededRandom v2;
                (v4, r4) = seededRandom v3
            in if r1 > 0.3
               then (buildings,
                     trees @
                       [\<lparr>tr_x = real_of_int px + real_of_int TILE_SIZE / 2 + (r2 * 20 - 10),
                         tr_y = real_of_int py + real_of_int TILE_SIZE / 2 + (r3 * 20 - 10),
                         tr_r = 10 + r4 * 10\<rparr>],
                     v4)
               else (buildings, trees, v1))
         else st)"

definition decorPass ::
  "nat list list \<Rightarrow> building list \<times> tree list \<times> int \<Rightarrow> building list \<times> tree list \<times> int" where
  "decorPass tiles st =
     fold (\<lambda>y. fold (\<lambda>x. decorCell tiles y x) [0 ..< nat MAP_WIDTH]) [0 ..< nat MAP_HEIGHT] st"

text \<open>\<^verbatim>\<open>generateMap(seed)\<close>: a grid of sidewalk, then the three loops in turn.\<close>

definition generateMap :: "int \<Rightarrow> gameMap" where
  "generateMap seed =
     (let tiles0 = replicate (nat MAP_HEIGHT) (replicate (nat MAP_WIDTH) 1);
          (tiles1, v1) = terrainPass (tiles0, seed);
          tiles = lavaPass tiles1;
          (buildings, trees, v2) = decorPass tiles ([], [], v1)
      in \<lparr>gm_width = MAP_WIDTH * TILE_SIZE, gm_height = MAP_HEIGHT * TILE_SIZE,
          gm_tiles = tiles, gm_buildings = buildings, gm_trees = trees\<rparr>)"

text \<open>A grid of the generator's size.\<close>

definition gridOk :: "nat list list \<Rightarrow> bool" where
  "gridOk tiles =
     (length tiles = nat MAP_HEIGHT \<and> (\<forall>row \<in> set tiles. length row = nat MAP_WIDTH))"

text \<open>The cells of the outer perimeter of the grid.\<close>

definition perimeter :: "nat \<Rightarrow> nat \<Rightarrow> bool" where
  "perimeter x y = (int x = 0 \<or> int x = MAP_WIDTH - 1 \<or> int y = 0 \<or> int y = MAP_HEIGHT - 1)"

subsection \<open>Random numbers, the clock and distances\<close>

text \<open>
  \<open>rnd\<close> is the sequence of results that \<^verbatim>\<open>Math.random()\<close> is going to return, each in
  \<open>[0, 1)\<close>; a function that calls it takes the position \<open>k\<close> of the next result and returns
  the position after its calls. \<open>wall\<close> is the reading of \<^verbatim>\<open>Date.now()\<close>, in milliseconds,
  taken as constant during one call. \<^verbatim>\<open>Math.hypot(a, b)\<close> is \<open>hypot a b\<close>.
\<close>

type_synonym random = "nat \<Rightarrow> real"

definition unitRange :: "random \<Rightarrow> bool" where
  "unitRange rnd = (\<forall>n. 0 \<le> rnd n \<and> rnd n < 1)"

definition hypot :: "real \<Rightarrow> real \<Rightarrow> real" where
  "hypot a b = sqrt (a * a + b * b)"

text \<open>
  \<^verbatim>\<open>Math.floor(Math.random() * (MAP_WIDTH - 2)) + 1\<close>, a column or a row off the perimeter,
  and the centre of a tile in world units.
\<close>

definition randomCell :: "real \<Rightarrow> int" where
  "randomCell r = \<lfloor>r * real_of_int (MAP_WIDTH - 2)\<rfloor> + 1"

definition tileCentre :: "int \<Rightarrow> real" where
  "tileCentre g = real_of_int (g * TILE_SIZE) + real_of_int TILE_SIZE / 2"

subsection \<open>The spawn subsystem\<close>

text \<open>
  \<^verbatim>\<open>spawnEnemy(map, avoidX, avoidY, minDist)\<close>: up to 100 attempts at a random road tile
  farther than \<^verbatim>\<open>minDist\<close> from the point to avoid. \<open>spawnEnemyLoop\<close> is the loop with the
  number of attempts left; each attempt draws two numbers. On success the enemy object
  draws two more, for its id and its speed; else the result is \<^verbatim>\<open>null\<close>.
\<close>

fun spawnEnemyLoop ::
  "random \<Rightarrow> gameMap \<Rightarrow> real \<Rightarrow> real \<Rightarrow> real \<Rightarrow> nat \<Rightarrow> nat \<Rightarrow> (real \<times> real) option \<times> nat" where
  "spawnEnemyLoop rnd m avoidX avoidY minDist 0 k = (None, k)"
| "spawnEnemyLoop rnd m avoidX avoidY minDist (Suc n) k =
     (let rx = randomCell (rnd k);
          ry = randomCell (rnd (k + 1));
          candidateX = tileCentre rx;
          candidateY = tileCentre ry
      in if tileAt m rx ry = 0 \<and> hypot (candidateX - avoidX) (candidateY - avoidY) > minDist
         then (Some (candidateX, candidateY), k + 2)
         else spawnEnemyLoop rnd m avoidX avoidY minDist n (k + 2))"

definition spawnEnemy ::
  "random \<Rightarrow> int \<Rightarrow> gameMap \<Rightarrow> real \<Rightarrow> real \<Rightarrow> real \<Rightarrow> nat \<Rightarrow> enemy option \<times> nat" where
  "spawnEnemy rnd wall m avoidX avoidY minDist k =
     (case spawnEnemyLoop rnd m avoidX avoidY minDist 100 k of
        (None, k') \<Rightarrow> (None, k')
      | (Some (ex, ey), k') \<Rightarrow>
          (Some \<lparr>e_id = Stamped ''enemy'' wall (rnd k'), e_x = ex, e_y = ey, e_width = 24,
                  e_height = 24, e_speed = BASE_ENEMY_SPEED + rnd (k' + 1) * 30, e_trail = [],
                  e_stuckTime = 0, e_flankTimer = 0, e_flankDir = (0, 0)\<rparr>,
           k' + 2))"

text \<open>
  The part of the state that the coin schedule is about: the coins, the coin timer, the
  interval to the next batch and the flag of the seeding.
\<close>

definition coinView :: "gameState \<Rightarrow> coin list \<times> real \<times> real \<times> bool" where
  "coinView gameState =
     (gs_coins gameState, gs_coinSpawnTimer gameState, gs_nextCoinSpawnTime gameState,
      gs_coinsInitialized gameState)"

text \<open>
  \<^verbatim>\<open>spawnCoin(gameState)\<close>: nothing when 40 coins are uncollected; else up to 100 attempts
  at a random road tile at least 200 units from every player, and a coin on the first
  that fits. The state is the game state and the position in \<open>rnd\<close>.
\<close>

definition uncollectedCoins :: "gameState \<Rightarrow> nat" where
  "uncollectedCoins gameState = length (filter (\<lambda>c. \<not> c_collected c) (gs_coins gameState))"

fun spawnCoinLoop :: "random \<Rightarrow> int \<Rightarrow> nat \<Rightarrow> gameState \<times> nat \<Rightarrow> gameState \<times> nat" where
  "spawnCoinLoop rnd wall 0 (gameState, k) = (gameState, k)"
| "spawnCoinLoop rnd wall (Suc n) (gameState, k) =
     (let rx = randomCell (rnd k);
          ry = randomCell (rnd (k + 1));
          cx = tileCentre rx;
          cy = tileCentre ry;
          tooClose = list_ex (\<lambda>player. hypot (cx - p_x player) (cy - p_y player) < 200)
                       (gs_players gameState)
      in if tileAt (gs_map gameState) rx ry = 0 \<and> \<not> tooClose
         then (gameState\<lparr>gs_coins := gs_coins gameState @
                 [\<lparr>c_id = Stamped ''coin'' wall (rnd (k + 2)), c_x = cx, c_y = cy,
                   c_collected = False, c_spawnTime = real_of_int wall * 0.001\<rparr>]\<rparr>,
               k + 3)
         else spawnCoinLoop rnd wall n (gameState, k + 2))"

definition spawnCoin :: "random \<Rightarrow> int \<Rightarrow> gameState \<times> nat \<Rightarrow> gameState \<times> nat" where
  "spawnCoin rnd wall st =
     (if uncollectedCoins (fst st) \<ge> 40 then st else spawnCoinLoop rnd wall 100 st)"

text \<open>
  For the statements about \<^verbatim>\<open>spawnCoin\<close>: the attempt that reads \<open>rnd\<close> at the position \<open>k\<close>
  fits when the tile it draws is a road tile whose centre is at least 200 units from
  every player; \<open>coinAt\<close> is the coin that such an attempt adds.
\<close>

definition attemptFits :: "random \<Rightarrow> gameState \<Rightarrow> nat \<Rightarrow> bool" where
  "attemptFits rnd gameState k =
     (tileAt (gs_map gameState) (randomCell (rnd k)) (randomCell (rnd (k + 1))) = 0 \<and>
      \<not> list_ex (\<lambda>player. hypot (tileCentre (randomCell (rnd k)) - p_x player)
                             (tileCentre (randomCell (rnd (k + 1))) - p_y player) < 200)
           (gs_players gameState))"

definition coinAt :: "random \<Rightarrow> int \<Rightarrow> nat \<Rightarrow> coin" where
  "coinAt rnd wall k =
     \<lparr>c_id = Stamped ''coin'' wall (rnd (k + 2)), c_x = tileCentre (randomCell (rnd k)),
      c_y = tileCentre (randomCell (rnd (k + 1))), c_collected = False,
      c_spawnTime = real_of_int wall * 0.001\<rparr>"

text \<open>
  \<^verbatim>\<open>spawnImmunityPickup(gameState, quadrant)\<close>: up to 100 attempts at a random road tile of
  the quadrant.
\<close>

fun spawnImmunityLoop ::
  "random \<Rightarrow> int \<Rightarrow> nat \<Rightarrow> real \<Rightarrow> real \<Rightarrow> real \<Rightarrow> real \<Rightarrow> nat \<Rightarrow> gameState \<times> nat \<Rightarrow>
   gameState \<times> nat" where
  "spawnImmunityLoop rnd wall quadrant minX maxX minY maxY 0 (gameState, k) = (gameState, k)"
| "spawnImmunityLoop rnd wall quadrant minX maxX minY maxY (Suc n) (gameState, k) =
     (let rx = \<lfloor>minX + rnd k * (maxX - minX)\<rfloor>;
          ry = \<lfloor>minY + rnd (k + 1) * (maxY - minY)\<rfloor>
      in if tileAt (gs_map gameState) rx ry = 0
         then (gameState\<lparr>gs_immunityPickups := gs_immunityPickups gameState @
                 [\<lparr>ip_id = Stamped ''immunity'' wall (rnd (k + 2)), ip_x = tileCentre rx,
                   ip_y = tileCentre ry, ip_collected = False, ip_quadrant = quadrant,
                   ip_spawnTime = real_of_int wall * 0.001\<rparr>]\<rparr>,
               k + 3)
         else spawnImmunityLoop rnd wall quadrant minX maxX minY maxY n (gameState, k + 2))"

definition spawnImmunityPickup ::
  "random \<Rightarrow> int \<Rightarrow> nat \<Rightarrow> gameState \<times> nat \<Rightarrow> gameState \<times> nat" where
  "spawnImmunityPickup rnd wall quadrant st =
     (let midX = real_of_int MAP_WIDTH / 2;
          midY = real_of_int MAP_HEIGHT / 2;
          right = (quadrant = 1 \<or> quadrant = 3);
          lower = (quadrant = 2 \<or> quadrant = 3);
          minX = (if right then midX else 1);
          maxX = (if right then real_of_int MAP_WIDTH - 2 else midX - 1);
          minY = (if lower then midY else 1);
          maxY = (if lower then real_of_int MAP_HEIGHT - 2 else midY - 1)
      in spawnImmunityLoop rnd wall quadrant minX maxX minY maxY 100 st)"

text \<open>
  \<^verbatim>\<open>spawnSinkCollectible(gameState)\<close>: as for a coin, with a cap of 2 and a distance of 300.
\<close>

fun spawnSinkLoop :: "random \<Rightarrow> int \<Rightarrow> nat \<Rightarrow> gameState \<times> nat \<Rightarrow> gameState \<times> nat" where
  "spawnSinkLoop rnd wall 0 (gameState, k) = (gameState, k)"
| "spawnSinkLoop rnd wall (Suc n) (gameState, k) =
     (let rx = randomCell (rnd k);
          ry = randomCell (rnd (k + 1));
          cx = tileCentre rx;
          cy = tileCentre ry;
          tooClose = list_ex (\<lambda>player. hypot (cx - p_x player) (cy - p_y player) < 300)
                       (gs_players gameState)
      in if tileAt (gs_map gameState) rx ry = 0 \<and> \<not> tooClose
         then (gameState\<lparr>gs_sinkCollectibles := gs_sinkCollectibles gameState @
                 [\<lparr>sc_id = Stamped ''sink'' wall (rnd (k + 2)), sc_x = cx, sc_y = cy,
                   sc_collected = False, sc_spawnTime = real_of_int wall * 0.001\<rparr>]\<rparr>,
               k + 3)
         else spawnSinkLoop rnd wall n (gameState, k + 2))"

definition spawnSinkCollectible :: "random \<Rightarrow> int \<Rightarrow> gameState \<times> nat \<Rightarrow> gameState \<times> nat" where
  "spawnSinkCollectible rnd wall st =
     (if length (filter (\<lambda>s. \<not> sc_collected s) (gs_sinkCollectibles (fst st))) \<ge> 2 then st
      else spawnSinkLoop rnd wall 100 st)"

subsection \<open>Spawning in the game loop\<close>

text \<open>
  \<^verbatim>\<open>handleSpawning(gameState, deltaTime)\<close> in its five blocks, in the order of the source:
  the speed boost at 30 seconds, the coins, the other collectibles, the enemies.
\<close>

definition speedBoost :: "gameState \<Rightarrow> gameState" where
  "speedBoost gameState =
     (if \<not> gs_speedBoostApplied gameState \<and> gs_gameTime gameState \<ge> 30
      then gameState
             \<lparr>gs_speedBoostApplied := True,
              gs_players := map (\<lambda>player. player\<lparr>p_speed := BASE_PLAYER_SPEED * 1.2\<rparr>)
                              (gs_players gameState),
              gs_enemies := map (\<lambda>enemy. enemy\<lparr>e_speed := e_speed enemy * 1.2\<rparr>)
                              (gs_enemies gameState)\<rparr>
      else gameState)"

text \<open>The first run seeds the coins with 20 calls of \<^verbatim>\<open>spawnCoin\<close>.\<close>

definition seedCoins :: "random \<Rightarrow> int \<Rightarrow> gameState \<times> nat \<Rightarrow> gameState \<times> nat" where
  "seedCoins rnd wall st =
     (let (gameState, k) = st
      in if \<not> gs_coinsInitialized gameState
         then (spawnCoin rnd wall ^^ 20) (gameState\<lparr>gs_coinsInitialized := True\<rparr>, k)
         else st)"

text \<open>
  The coin timer: when it reaches \<^verbatim>\<open>nextCoinSpawnTime\<close> it is reset, the next interval is
  drawn as \<^verbatim>\<open>3 + Math.random() * 4\<close>, the number of coins as
  \<^verbatim>\<open>3 + Math.floor(Math.random() * 3)\<close>, and \<^verbatim>\<open>spawnCoin\<close> is called that many times.
\<close>

definition nextCoinInterval :: "real \<Rightarrow> real" where
  "nextCoinInterval r = 3 + r * 4"

definition numCoins :: "real \<Rightarrow> int" where
  "numCoins r = 3 + \<lfloor>r * 3\<rfloor>"

definition coinTimer :: "random \<Rightarrow> int \<Rightarrow> real \<Rightarrow> gameState \<times> nat \<Rightarrow> gameState \<times> nat" where
  "coinTimer rnd wall deltaTime st =
     (let (gameState, k) = st;
          timer = gs_coinSpawnTimer gameState + deltaTime
      in if timer \<ge> gs_nextCoinSpawnTime gameState
         then (spawnCoin rnd wall ^^ nat (numCoins (rnd (k + 1))))
                (gameState\<lparr>gs_coinSpawnTimer := 0,
                            gs_nextCoinSpawnTime := nextCoinInterval (rnd k)\<rparr>,
                 k + 2)
         else (gameState\<lparr>gs_coinSpawnTimer := timer\<rparr>, k))"

definition quadrantCount :: "gameState \<Rightarrow> nat \<Rightarrow> nat" where
  "quadrantCount gameState q =
     length (filter (\<lambda>p. \<not> ip_collected p \<and> ip_quadrant p = q) (gs_immunityPickups gameState))"

definition spawnCollectibles ::
  "random \<Rightarrow> int \<Rightarrow> real \<Rightarrow> gameState \<times> nat \<Rightarrow> gameState \<times> nat" where
  "spawnCollectibles rnd wall deltaTime st =
     (if gs_gameTime (fst st) \<ge> COLLECTIBLES_START_TIME
      then
        (let (gs1, k1) =
               (if \<not> gs_collectiblesInitialized (fst st)
                then spawnSinkCollectible rnd wall
                       (fold (spawnImmunityPickup rnd wall) [0 ..< 4]
                          ((fst st)\<lparr>gs_collectiblesInitialized := True\<rparr>, snd st))
                else st);
             immunityTimer = gs_immunityPickupSpawnTimer gs1 + deltaTime;
             (gs2, k2) =
               (if immunityTimer \<ge> gs_nextImmunityPickupSpawnTime gs1
                then
                  (let gsT = gs1\<lparr>gs_immunityPickupSpawnTimer := 0,
                                 gs_nextImmunityPickupSpawnTime := 25 + rnd k1 * 15\<rparr>
                   in fold (\<lambda>q s. if quadrantCount gsT q < 2
                                   then spawnImmunityPickup rnd wall q s else s)
                        [0 ..< 4] (gsT, k1 + 1))
                else (gs1\<lparr>gs_immunityPickupSpawnTimer := immunityTimer\<rparr>, k1));
             sinkTimer = gs_sinkSpawnTimer gs2 + deltaTime
         in if sinkTimer \<ge> gs_nextSinkSpawnTime gs2
            then spawnSinkCollectible rnd wall
                   (gs2\<lparr>gs_sinkSpawnTimer := 0, gs_nextSinkSpawnTime := 25 + rnd k2 * 10\<rparr>,
                    k2 + 1)
            else (gs2\<lparr>gs_sinkSpawnTimer := sinkTimer\<rparr>, k2))
      else st)"

text \<open>One of the two enemies that are spawned every 30 seconds.\<close>

definition addEnemy :: "random \<Rightarrow> int \<Rightarrow> real \<Rightarrow> real \<Rightarrow> gameState \<times> nat \<Rightarrow> gameState \<times> nat" where
  "addEnemy rnd wall centerX centerY st =
     (let (gameState, k) = st
      in case spawnEnemy rnd wall (gs_map gameState) centerX centerY 800 k of
           (None, k') \<Rightarrow> (gameState, k')
         | (Some enemy, k') \<Rightarrow>
             (gameState\<lparr>gs_enemies := gs_enemies gameState @
                [if gs_speedBoostApplied gameState
                 then enemy\<lparr>e_speed := e_speed enemy * 1.2\<rparr> else enemy]\<rparr>,
              k'))"

definition spawnEnemies :: "random \<Rightarrow> int \<Rightarrow> real \<Rightarrow> gameState \<times> nat \<Rightarrow> gameState \<times> nat" where
  "spawnEnemies rnd wall deltaTime st =
     (let (gameState, k) = st;
          timer = gs_enemySpawnTimer gameState + deltaTime
      in if timer \<ge> 30
         then (let centerX = (case gs_players gameState of [] \<Rightarrow> 0 | player # _ \<Rightarrow> p_x player);
                   centerY = (case gs_players gameState of [] \<Rightarrow> 0 | player # _ \<Rightarrow> p_y player)
               in (addEnemy rnd wall centerX centerY ^^ 2)
                    (gameState\<lparr>gs_enemySpawnTimer := 0\<rparr>, k))
         else (gameState\<lparr>gs_enemySpawnTimer := timer\<rparr>, k))"

definition handleSpawning :: "random \<Rightarrow> int \<Rightarrow> real \<Rightarrow> gameState \<times> nat \<Rightarrow> gameState \<times> nat" where
  "handleSpawning rnd wall deltaTime st =
     spawnEnemies rnd wall deltaTime
       (spawnCollectibles rnd wall deltaTime
         (coinTimer rnd wall deltaTime
           (seedCoins rnd wall (speedBoost (fst st), snd st))))"

text \<open>
  For the statements about the coin schedule: the coins of \<open>gs'\<close> are those of \<open>gs\<close> and at
  most \<open>n\<close> new uncollected ones after them; \<open>coinClock\<close> is the timer, the interval and the
  flag of the seeding.
\<close>

definition coinsGrow :: "nat \<Rightarrow> gameState \<Rightarrow> gameState \<Rightarrow> bool" where
  "coinsGrow n gs gs' =
     (\<exists>added. gs_coins gs' = gs_coins gs @ added \<and> length added \<le> n \<and>
        (\<forall>c \<in> set added. \<not> c_collected c))"

definition coinClock :: "gameState \<Rightarrow> real \<times> real \<times> bool" where
  "coinClock gs = (gs_coinSpawnTimer gs, gs_nextCoinSpawnTime gs, gs_coinsInitialized gs)"

text \<open>
  Two states are the same to \<^verbatim>\<open>spawnCoin\<close> when they have the same map, the same coins and
  their players at the same places: it reads nothing else of the state.
\<close>

definition sameSpawnView :: "gameState \<Rightarrow> gameState \<Rightarrow> bool" where
  "sameSpawnView a b =
     (gs_map a = gs_map b \<and> gs_coins a = gs_coins b \<and>
      map (\<lambda>p. (p_x p, p_y p)) (gs_players a) = map (\<lambda>p. (p_x p, p_y p)) (gs_players b))"

subsection \<open>The collision pass\<close>

text \<open>An event that the loop emits to a room: \<^verbatim>\<open>player_death\<close> with the player's id.\<close>

datatype event = PlayerDeath string playerId

definition onLava :: "gameMap \<Rightarrow> player \<Rightarrow> bool" where
  "onLava m player =
     (let gridX = \<lfloor>p_x player / real_of_int TILE_SIZE\<rfloor>;
          gridY = \<lfloor>p_y player / real_of_int TILE_SIZE\<rfloor>
      in gridY \<ge> 0 \<and> gridY < MAP_HEIGHT \<and> gridX \<ge> 0 \<and> gridX < MAP_WIDTH \<and>
         tileAt m gridX gridY = 4)"

definition boatOverlaps :: "player \<Rightarrow> boat \<Rightarrow> bool" where
  "boatOverlaps player boat =
     (\<bar>p_x player - b_x boat\<bar> < b_w boat / 2 + p_width player / 2 \<and>
      \<bar>p_y player - b_y boat\<bar> < b_h boat / 2 + p_height player / 2)"

definition onBoat :: "boat list \<Rightarrow> player \<Rightarrow> bool" where
  "onBoat boats player = list_ex (boatOverlaps player) boats"

text \<open>
  One enemy against the player: on contact a player without immunity dies (the event is
  emitted), and a player with immunity pushes the enemy to a new spawn point at least
  500 units away, if \<^verbatim>\<open>spawnEnemy\<close> finds one.
\<close>

definition relocate :: "enemy \<Rightarrow> enemy option \<Rightarrow> enemy" where
  "relocate enemy newPos =
     (case newPos of None \<Rightarrow> enemy
      | Some n \<Rightarrow> enemy\<lparr>e_x := e_x n, e_y := e_y n, e_trail := []\<rparr>)"

definition enemyContact ::
  "random \<Rightarrow> int \<Rightarrow> gameMap \<Rightarrow> string \<Rightarrow> player \<Rightarrow> enemy \<Rightarrow> nat \<Rightarrow> event list \<Rightarrow>
   enemy \<times> nat \<times> event list" where
  "enemyContact rnd wall m roomCode player enemy k evs =
     (if hypot (p_x player - e_x enemy) (p_y player - e_y enemy)
           < p_width player / 2 + e_width enemy / 2
      then (if \<not> p_immunityActive player
            then (enemy, k, evs @ [PlayerDeath roomCode (p_id player)])
            else (let (newPos, k') = spawnEnemy rnd wall m (p_x player) (p_y player) 500 k
                  in (relocate enemy newPos, k', evs)))
      else (enemy, k, evs))"

fun enemyCollisions ::
  "random \<Rightarrow> int \<Rightarrow> gameMap \<Rightarrow> string \<Rightarrow> player \<Rightarrow> enemy list \<Rightarrow> nat \<Rightarrow> event list \<Rightarrow>
   enemy list \<times> nat \<times> event list" where
  "enemyCollisions rnd wall m roomCode player [] k evs = ([], k, evs)"
| "enemyCollisions rnd wall m roomCode player (enemy # rest) k evs =
     (let (enemy', k', evs') = enemyContact rnd wall m roomCode player enemy k evs;
          (rest', k'', evs'') = enemyCollisions rnd wall m roomCode player rest k' evs'
      in (enemy' # rest', k'', evs''))"

text \<open>
  Coins. \<open>creditCoin\<close> is what a collected coin does to the player; \<open>collectCoin\<close> is the
  callback of \<^verbatim>\<open>gameState.coins.forEach\<close>.
\<close>

definition creditCoin :: "player \<Rightarrow> player" where
  "creditCoin player =
     (let p1 = player\<lparr>p_coinsCollected := p_coinsCollected player + 1\<rparr>
      in if p_coinsCollected p1 \<ge> COINS_FOR_IMMUNITY
         then (if p_immunityInventory p1 < MAX_IMMUNITY_INVENTORY
               then p1\<lparr>p_immunityInventory := p_immunityInventory p1 + 1, p_coinsCollected := 0\<rparr>
               else p1\<lparr>p_coinsCollected := COINS_FOR_IMMUNITY - 1\<rparr>)
         else p1)"

definition coinInReach :: "player \<Rightarrow> coin \<Rightarrow> bool" where
  "coinInReach player c =
     (\<not> c_collected c \<and> hypot (p_x player - c_x c) (p_y player - c_y c) < 25)"

definition collectCoin :: "player \<Rightarrow> coin \<Rightarrow> player \<times> coin" where
  "collectCoin player c =
     (if c_collected c then (player, c)
      else if hypot (p_x player - c_x c) (p_y player - c_y c) < 25
      then (creditCoin player, c\<lparr>c_collected := True\<rparr>)
      else (player, c))"

fun collectCoins :: "player \<Rightarrow> coin list \<Rightarrow> player \<times> coin list" where
  "collectCoins player [] = (player, [])"
| "collectCoins player (c # rest) =
     (let (player', c') = collectCoin player c;
          (player'', rest') = collectCoins player' rest
      in (player'', c' # rest'))"

text \<open>Immunity pickups and sink collectibles.\<close>

definition collectImmunity :: "real \<Rightarrow> player \<Rightarrow> immunityPickup \<Rightarrow> player \<times> immunityPickup" where
  "collectImmunity gameTime player pickup =
     (if ip_collected pickup then (player, pickup)
      else if hypot (p_x player - ip_x pickup) (p_y player - ip_y pickup) < 30
      then (player\<lparr>p_immunityActive := True, p_immunityEndTime := gameTime + IMMUNITY_DURATION\<rparr>,
            pickup\<lparr>ip_collected := True\<rparr>)
      else (player, pickup))"

fun collectImmunities ::
  "real \<Rightarrow> player \<Rightarrow> immunityPickup list \<Rightarrow> player \<times> immunityPickup list" where
  "collectImmunities gameTime player [] = (player, [])"
| "collectImmunities gameTime player (pickup # rest) =
     (let (player', pickup') = collectImmunity gameTime player pickup;
          (player'', rest') = collectImmunities gameTime player' rest
      in (player'', pickup' # rest'))"

definition collectSink :: "player \<Rightarrow> sinkCollectible \<Rightarrow> player \<times> sinkCollectible" where
  "collectSink player sink =
     (if sc_collected sink then (player, sink)
      else if hypot (p_x player - sc_x sink) (p_y player - sc_y sink) < 30 \<and>
              p_sinkInventory player < 3
      then (player\<lparr>p_sinkInventory := p_sinkInventory player + 1\<rparr>, sink\<lparr>sc_collected := True\<rparr>)
      else (player, sink))"

fun collectSinks :: "player \<Rightarrow> sinkCollectible list \<Rightarrow> player \<times> sinkCollectible list" where
  "collectSinks player [] = (player, [])"
| "collectSinks player (sink # rest) =
     (let (player', sink') = collectSink player sink;
          (player'', rest') = collectSinks player' rest
      in (player'', sink' # rest'))"

text \<open>
  Portals, when the cooldown has run out: the callback of \<^verbatim>\<open>gameState.portals.forEach\<close> at
  index \<open>i\<close> moves a player within 20 units of the portal to one of the other portals,
  drawn at random. The cooldown is tested once, before the loop.
\<close>

definition portalStep :: "random \<Rightarrow> portal list \<Rightarrow> nat \<Rightarrow> player \<times> nat \<Rightarrow> player \<times> nat" where
  "portalStep rnd portals i st =
     (let (player, k) = st;
          portal = portals ! i;
          otherPortals = take i portals @ drop (Suc i) portals
      in if hypot (p_x player - po_x portal) (p_y player - po_y portal) < 20 \<and> otherPortals \<noteq> []
         then (let dest = otherPortals ! nat \<lfloor>rnd k * real (length otherPortals)\<rfloor>
               in (player\<lparr>p_x := po_x dest, p_y := po_y dest, p_portalCooldown := 2,
                          p_trail := []\<rparr>,
                   k + 1))
         else st)"

definition usePortals :: "random \<Rightarrow> portal list \<Rightarrow> player \<times> nat \<Rightarrow> player \<times> nat" where
  "usePortals rnd portals st =
     (if p_portalCooldown (fst st) \<le> 0
      then fold (portalStep rnd portals) [0 ..< length portals] st
      else st)"

text \<open>
  Deployed sinks: for every enemy, the sinks from the last to the first; a sink within
  25 units of the enemy is removed and the enemy sent at least 1000 units away from the
  player of the outer loop. \<open>sinkLoop\<close> is the inner loop with the indices left.
\<close>

fun sinkLoop ::
  "random \<Rightarrow> int \<Rightarrow> gameMap \<Rightarrow> player \<Rightarrow> nat \<Rightarrow> enemy \<times> deployedSink list \<times> nat \<Rightarrow>
   enemy \<times> deployedSink list \<times> nat" where
  "sinkLoop rnd wall m player 0 st = st"
| "sinkLoop rnd wall m player (Suc i) (enemy, sinks, k) =
     (let sink = sinks ! i
      in if hypot (e_x enemy - ds_x sink) (e_y enemy - ds_y sink) < 25
         then (let (newPos, k') = spawnEnemy rnd wall m (p_x player) (p_y player) 1000 k
               in sinkLoop rnd wall m player i
                    (relocate enemy newPos, take i sinks @ drop (Suc i) sinks, k'))
         else sinkLoop rnd wall m player i (enemy, sinks, k))"

fun enemySinkCollisions ::
  "random \<Rightarrow> int \<Rightarrow> gameMap \<Rightarrow> player \<Rightarrow> enemy list \<Rightarrow> deployedSink list \<Rightarrow> nat \<Rightarrow>
   enemy list \<times> deployedSink list \<times> nat" where
  "enemySinkCollisions rnd wall m player [] sinks k = ([], sinks, k)"
| "enemySinkCollisions rnd wall m player (enemy # rest) sinks k =
     (let (enemy', sinks', k') = sinkLoop rnd wall m player (length sinks) (enemy, sinks, k);
          (rest', sinks'', k'') = enemySinkCollisions rnd wall m player rest sinks' k'
      in (enemy' # rest', sinks'', k''))"

text \<open>
  The callback of \<^verbatim>\<open>gameState.players.forEach\<close> in \<^verbatim>\<open>checkCollisions\<close>, for the player at
  index \<open>i\<close>. The state is the game state, the position in \<open>rnd\<close> and the events emitted so
  far. \<open>remainingChecks\<close> is the callback after the lava test.
\<close>

definition remainingChecks ::
  "random \<Rightarrow> int \<Rightarrow> nat \<Rightarrow> gameState \<times> nat \<times> event list \<Rightarrow> gameState \<times> nat \<times> event list" where
  "remainingChecks rnd wall i st =
     (let (gameState, k, evs) = st;
          player = gs_players gameState ! i;
          (enemies1, k1, evs1) =
            enemyCollisions rnd wall (gs_map gameState) (gs_roomCode gameState) player
              (gs_enemies gameState) k evs;
          (player2, coins') = collectCoins player (gs_coins gameState);
          (player3, pickups') =
            collectImmunities (gs_gameTime gameState) player2 (gs_immunityPickups gameState);
          (player4, sinks') = collectSinks player3 (gs_sinkCollectibles gameState);
          (player5, k2) = usePortals rnd (gs_portals gameState) (player4, k1);
          (enemies2, deployed', k3) =
            enemySinkCollisions rnd wall (gs_map gameState) player5 enemies1
              (gs_deployedSinks gameState) k2
      in (gameState\<lparr>gs_players := (gs_players gameState)[i := player5],
                     gs_enemies := enemies2, gs_coins := coins',
                     gs_immunityPickups := pickups', gs_sinkCollectibles := sinks',
                     gs_deployedSinks := deployed'\<rparr>,
          k3, evs1))"

definition checkPlayer ::
  "random \<Rightarrow> int \<Rightarrow> nat \<Rightarrow> gameState \<times> nat \<times> event list \<Rightarrow> gameState \<times> nat \<times> event list" where
  "checkPlayer rnd wall i st =
     (let (gameState, k, evs) = st;
          player = gs_players gameState ! i
      in if onLava (gs_map gameState) player \<and> \<not> onBoat (gs_boats gameState) player
         then (gameState, k, evs @ [PlayerDeath (gs_roomCode gameState) (p_id player)])
         else remainingChecks rnd wall i st)"

definition checkCollisions ::
  "random \<Rightarrow> int \<Rightarrow> gameState \<times> nat \<times> event list \<Rightarrow> gameState \<times> nat \<times> event list" where
  "checkCollisions rnd wall st =
     fold (checkPlayer rnd wall) [0 ..< length (gs_players (fst st))] st"

text \<open>When an enemy touches the player: the test of \<open>enemyContact\<close>.\<close>

definition inContact :: "player \<Rightarrow> enemy \<Rightarrow> bool" where
  "inContact player enemy =
     (hypot (p_x player - e_x enemy) (p_y player - e_y enemy)
        < p_width player / 2 + e_width enemy / 2)"

subsection \<open>Rooms and the start of a match\<close>

text \<open>
  A room of \<^verbatim>\<open>RoomManager\<close>; the manager's map of rooms is the list of its rooms in the
  order of insertion, which is the order of \<^verbatim>\<open>getAllRooms()\<close>.
\<close>

datatype roomStatus = WAITING | PLAYING | FINISHED

record roomPlayer =
  rp_id :: playerId
  rp_name :: string
  rp_isHost :: bool
  rp_coins :: int

record room =
  r_code :: string
  r_hostId :: playerId
  r_players :: "roomPlayer list"
  r_status :: roomStatus
  r_createdAt :: int
  r_maxPlayers :: nat

definition getRoom :: "room list \<Rightarrow> string \<Rightarrow> room option" where
  "getRoom rooms roomCode = find (\<lambda>r. r_code r = roomCode) rooms"

definition initializeBoats :: "boat list" where
  "initializeBoats =
     (let perimeterLength = real_of_int ((MAP_WIDTH * 2 + MAP_HEIGHT * 2) * TILE_SIZE);
          boatCount = 10;
          spacing = perimeterLength / real boatCount
      in map (\<lambda>i. \<lparr>b_id = Indexed ''boat'' i, b_dist = real i * spacing, b_x = 0, b_y = 0,
                    b_w = 48, b_h = 48, b_velX = 0, b_velY = 0, b_life = 10, b_maxLife = 10\<rparr>)
           [0 ..< boatCount])"

text \<open>
  \<^verbatim>\<open>initializePlayers(room, map)\<close>: for each player of the room up to 100 attempts at a
  random road tile; with none found the player starts at \<open>(0, 0)\<close>.
\<close>

fun findSpawn :: "random \<Rightarrow> gameMap \<Rightarrow> nat \<Rightarrow> nat \<Rightarrow> (real \<times> real) \<times> nat" where
  "findSpawn rnd m 0 k = ((0, 0), k)"
| "findSpawn rnd m (Suc n) k =
     (let x = randomCell (rnd k);
          y = randomCell (rnd (k + 1))
      in if tileAt m x y = 0 then ((tileCentre x, tileCentre y), k + 2)
         else findSpawn rnd m n (k + 2))"

definition newPlayer :: "roomPlayer \<Rightarrow> real \<Rightarrow> real \<Rightarrow> player" where
  "newPlayer roomPlayer spawnX spawnY =
     \<lparr>p_id = rp_id roomPlayer, p_name = rp_name roomPlayer, p_x = spawnX, p_y = spawnY,
      p_width = 24, p_height = 24, p_speed = BASE_PLAYER_SPEED, p_velX = 0, p_velY = 0,
      p_dirX = 0, p_dirY = 1, p_trail = [], p_portalCooldown = 0, p_coinsCollected = 0,
      p_immunityInventory = 0, p_sinkInventory = 0, p_energy = 0, p_immunityActive = False,
      p_immunityEndTime = 0\<rparr>"

fun initializePlayers :: "random \<Rightarrow> gameMap \<Rightarrow> roomPlayer list \<Rightarrow> nat \<Rightarrow> player list \<times> nat" where
  "initializePlayers rnd m [] k = ([], k)"
| "initializePlayers rnd m (roomPlayer # rest) k =
     (let ((spawnX, spawnY), k') = findSpawn rnd m 100 k;
          (players, k'') = initializePlayers rnd m rest k'
      in (newPlayer roomPlayer spawnX spawnY # players, k''))"

text \<open>
  \<^verbatim>\<open>generatePortals(map)\<close> loops until it has four portals on road tiles; no bound on the
  attempts, so the loop may run forever, which is the value \<open>None\<close>.
\<close>

partial_function (option) generatePortalsLoop ::
  "random \<Rightarrow> gameMap \<Rightarrow> portal list \<Rightarrow> nat \<Rightarrow> (portal list \<times> nat) option" where
  "generatePortalsLoop rnd m portals k =
     (if length portals < 4
      then (let px = randomCell (rnd k);
                py = randomCell (rnd (k + 1))
            in if tileAt m px py = 0
               then generatePortalsLoop rnd m
                      (portals @
                         [\<lparr>po_id = Indexed ''portal'' (length portals), po_x = tileCentre px,
                           po_y = tileCentre py, po_color = Hsl (length portals * 90) 100 50,
                           po_angle = 0, po_life = None\<rparr>])
                      (k + 2)
               else generatePortalsLoop rnd m portals (k + 2))
      else Some (portals, k))"

definition generatePortals :: "random \<Rightarrow> gameMap \<Rightarrow> nat \<Rightarrow> (portal list \<times> nat) option" where
  "generatePortals rnd m k = generatePortalsLoop rnd m [] k"

text \<open>
  The object that \<^verbatim>\<open>initializeRoom\<close> builds, from its parts and the three random numbers
  of the first spawn times.
\<close>

definition newGameState ::
  "string \<Rightarrow> gameMap \<Rightarrow> player list \<Rightarrow> enemy list \<Rightarrow> boat list \<Rightarrow> portal list \<Rightarrow>
   real \<Rightarrow> real \<Rightarrow> real \<Rightarrow> int \<Rightarrow> gameState" where
  "newGameState roomCode m players enemies boats portals r1 r2 r3 mapSeed =
     \<lparr>gs_roomCode = roomCode, gs_map = m, gs_players = players, gs_enemies = enemies,
      gs_boats = boats, gs_coins = [], gs_immunityPickups = [], gs_sinkCollectibles = [],
      gs_deployedSinks = [], gs_portals = portals, gs_gameTime = 0, gs_enemySpawnTimer = 0,
      gs_coinSpawnTimer = 0, gs_immunityPickupSpawnTimer = 0, gs_sinkSpawnTimer = 0,
      gs_nextCoinSpawnTime = 10 + r1 * 5, gs_nextImmunityPickupSpawnTime = 20 + r2 * 10,
      gs_nextSinkSpawnTime = 25 + r3 * 10, gs_collectiblesInitialized = False,
      gs_coinsInitialized = False, gs_speedBoostApplied = False, gs_mapSeed = mapSeed\<rparr>"

text \<open>The three enemies of the start: each call of \<^verbatim>\<open>spawnEnemy\<close> that succeeds adds one.\<close>

definition firstEnemy ::
  "random \<Rightarrow> int \<Rightarrow> gameMap \<Rightarrow> real \<Rightarrow> real \<Rightarrow> enemy list \<times> nat \<Rightarrow> enemy list \<times> nat" where
  "firstEnemy rnd wall m avoidX avoidY st =
     (case spawnEnemy rnd wall m avoidX avoidY 800 (snd st) of
        (None, k') \<Rightarrow> (fst st, k')
      | (Some enemy, k') \<Rightarrow> (fst st @ [enemy], k'))"

text \<open>
  \<^verbatim>\<open>initializeRoom(roomCode, mapSeed = Date.now())\<close>. The result is \<open>None\<close> when the portal
  loop does not end, \<open>Some (None, k)\<close> when the room does not exist (\<^verbatim>\<open>null\<close>), and else
  the new state, which \<^verbatim>\<open>roomStates.set\<close> stores.
\<close>

definition initializeRoom ::
  "random \<Rightarrow> int \<Rightarrow> room list \<Rightarrow> string \<Rightarrow> int option \<Rightarrow> nat \<Rightarrow> (gameState option \<times> nat) option" where
  "initializeRoom rnd wall rooms roomCode seedArg k =
     (case getRoom rooms roomCode of
        None \<Rightarrow> Some (None, k)
      | Some room \<Rightarrow>
          (let mapSeed = (case seedArg of None \<Rightarrow> wall | Some s \<Rightarrow> s);
               m = generateMap mapSeed;
               boats = initializeBoats;
               (players, k1) = initializePlayers rnd m (r_players room) k;
               avoidX = (case players of [] \<Rightarrow> 0 | player # _ \<Rightarrow> p_x player);
               avoidY = (case players of [] \<Rightarrow> 0 | player # _ \<Rightarrow> p_y player);
               (enemies, k2) = (firstEnemy rnd wall m avoidX avoidY ^^ 3) ([], k1)
           in case generatePortals rnd m k2 of
                None \<Rightarrow> None
              | Some (portals, k3) \<Rightarrow>
                  Some (Some (newGameState roomCode m players enemies boats portals
                                (rnd k3) (rnd (k3 + 1)) (rnd (k3 + 2)) mapSeed),
                        k3 + 3)))"

subsection \<open>The tick\<close>

text \<open>
  What \<^verbatim>\<open>updateRoom\<close> runs on the state of a room, from \<^verbatim>\<open>gameState.gameTime += deltaTime\<close>
  to the broadcast, is a parameter \<open>pipeline\<close> here: given the frame time, the clock, the
  state of the room and the rest of the world \<open>'w\<close> (input buffers, random numbers, emitted
  events) it returns the two as it leaves them, and the exception it has thrown if it has
  thrown one, the state then being the one reached at the throw. Neither \<^verbatim>\<open>updateRoom\<close>
  nor \<^verbatim>\<open>tick\<close> has a \<^verbatim>\<open>try\<close>: an exception leaves \<^verbatim>\<open>updateRoom\<close>, the callback of
  \<^verbatim>\<open>forEach\<close> and the loop of \<^verbatim>\<open>forEach\<close> over the rooms.
\<close>

datatype fault = Thrown string

type_synonym 'w pipeline =
  "real \<Rightarrow> int \<Rightarrow> gameState \<Rightarrow> 'w \<Rightarrow> fault option \<times> gameState \<times> 'w"

type_synonym 'w server = "(string \<rightharpoonup> gameState) \<times> 'w"

definition updateRoom ::
  "'w pipeline \<Rightarrow> string \<Rightarrow> real \<Rightarrow> int \<Rightarrow> 'w server \<Rightarrow> fault option \<times> 'w server" where
  "updateRoom pipeline roomCode deltaTime currentTime st =
     (case fst st roomCode of
        None \<Rightarrow> (None, st)
      | Some gameState \<Rightarrow>
          (case pipeline deltaTime currentTime gameState (snd st) of
             (thrown, gameState', w') \<Rightarrow> (thrown, ((fst st)(roomCode \<mapsto> gameState'), w'))))"

text \<open>The loop of \<^verbatim>\<open>forEach\<close> over the rooms, and \<^verbatim>\<open>tick()\<close> with its tick rate of 20.\<close>

fun tickRooms ::
  "'w pipeline \<Rightarrow> real \<Rightarrow> int \<Rightarrow> room list \<Rightarrow> 'w server \<Rightarrow> fault option \<times> 'w server" where
  "tickRooms pipeline deltaTime currentTime [] st = (None, st)"
| "tickRooms pipeline deltaTime currentTime (room # rest) st =
     (if r_status room = PLAYING
      then (case updateRoom pipeline (r_code room) deltaTime currentTime st of
              (Some thrown, st') \<Rightarrow> (Some thrown, st')
            | (None, st') \<Rightarrow> tickRooms pipeline deltaTime currentTime rest st')
      else tickRooms pipeline deltaTime currentTime rest st)"

definition tick :: "'w pipeline \<Rightarrow> int \<Rightarrow> room list \<Rightarrow> 'w server \<Rightarrow> fault option \<times> 'w server" where
  "tick pipeline wall rooms st = tickRooms pipeline (1 / 20) wall rooms st"

text \<open>The cells that the terrain loop stamps as roads: every fourth row and column.\<close>

definition roadCell :: "nat \<Rightarrow> nat \<Rightarrow> bool" where
  "roadCell x y = (y mod 4 = 0 \<or> x mod 4 = 0)"

subsection \<open>Concrete values for the examples\<close>

definition in1 :: input where
  "in1 = \<lparr>keys = None, timestamp = Num 0, processed = False\<rparr>"

text \<open>An input with the right arrow pressed.\<close>

definition inRight :: input where
  "inRight = \<lparr>keys = Some \<lparr>ArrowUp = False, ArrowDown = False, ArrowLeft = False,
                 ArrowRight = True, KeyW = False, KeyA = False, KeyS = False, KeyD = False\<rparr>,
               timestamp = Num 0, processed = False\<rparr>"

text \<open>A grid with the perimeter of lava and roads inside.\<close>

definition mapLava :: gameMap where
  "mapLava = \<lparr>gm_width = 3200, gm_height = 3200,
     gm_tiles = replicate 50 4 # replicate 48 (4 # replicate 48 0 @ [4]) @ [replicate 50 4],
     gm_buildings = [], gm_trees = []\<rparr>"

text \<open>A map of roads only, one player at the centre of a road tile, and a state around them.\<close>

definition mapEx :: gameMap where
  "mapEx = \<lparr>gm_width = 3200, gm_height = 3200, gm_tiles = replicate 50 (replicate 50 0),
            gm_buildings = [], gm_trees = []\<rparr>"

definition playerEx :: player where
  "playerEx = \<lparr>p_id = ''a'', p_name = ''Player_a'', p_x = 288, p_y = 288, p_width = 24,
     p_height = 24, p_speed = 300, p_velX = 0, p_velY = 0, p_dirX = 0, p_dirY = 1,
     p_trail = [], p_portalCooldown = 3 / 2, p_coinsCollected = 0, p_immunityInventory = 0,
     p_sinkInventory = 0, p_energy = 0, p_immunityActive = True, p_immunityEndTime = 10\<rparr>"

definition gsEx :: gameState where
  "gsEx = \<lparr>gs_roomCode = ''ROOM01'', gs_map = mapEx, gs_players = [playerEx],
     gs_enemies = [], gs_boats = [], gs_coins = [], gs_immunityPickups = [],
     gs_sinkCollectibles = [], gs_deployedSinks = [], gs_portals = [], gs_gameTime = 20,
     gs_enemySpawnTimer = 0, gs_coinSpawnTimer = 0, gs_immunityPickupSpawnTimer = 0,
     gs_sinkSpawnTimer = 0, gs_nextCoinSpawnTime = 12, gs_nextImmunityPickupSpawnTime = 25,
     gs_nextSinkSpawnTime = 30, gs_collectiblesInitialized = False,
     gs_coinsInitialized = False, gs_speedBoostApplied = False, gs_mapSeed = 1\<rparr>"

text \<open>Two pushes for player \<open>a\<close>, at timestamps 20 and 10; and one push at timestamp 100.\<close>

definition bufsEx :: inputBuffers where
  "bufsEx = bufferPlayerInput (bufferPlayerInput Map.empty ''a'' in1 (Num 20)) ''a'' in1 (Num 10)"

definition bufsLate :: inputBuffers where
  "bufsLate = bufferPlayerInput Map.empty ''a'' in1 (Num 100)"

text \<open>
  Three pushes for player \<open>a\<close>, with the timestamps \<^verbatim>\<open>5\<close>, \<^verbatim>\<open>"x"\<close> and \<^verbatim>\<open>3\<close>, the last with
  the right arrow pressed.
\<close>

definition bufsMixed :: inputBuffers where
  "bufsMixed =
     bufferPlayerInput
       (bufferPlayerInput (bufferPlayerInput Map.empty ''a'' in1 (Num 5)) ''a'' in1 NaN)
       ''a'' inRight (Num 3)"

text \<open>A coin at the place of \<open>playerEx\<close>, and a player with a full inventory and 4 coins.\<close>

definition coinEx :: coin where
  "coinEx = \<lparr>c_id = Stamped ''coin'' 0 0, c_x = 288, c_y = 288, c_collected = False,
             c_spawnTime = 0\<rparr>"

definition playerFull :: player where
  "playerFull = playerEx\<lparr>p_coinsCollected := 4, p_immunityInventory := 3\<rparr>"

text \<open>
  A player without immunity on the lava tile \<open>(0, 1)\<close> of \<open>mapLava\<close>, a boat under the player,
  and an enemy on the road tile \<open>(1, 1)\<close> that touches the player.
\<close>

definition playerLava :: player where
  "playerLava = playerEx\<lparr>p_x := 60, p_y := 100, p_immunityActive := False\<rparr>"

definition boatEx :: boat where
  "boatEx = \<lparr>b_id = Indexed ''boat'' 0, b_dist = 9504, b_x = 32, b_y = 96, b_w = 48, b_h = 48,
             b_velX = 0, b_velY = - 150, b_life = 10, b_maxLife = 10\<rparr>"

definition enemyEx :: enemy where
  "enemyEx = \<lparr>e_id = Stamped ''enemy'' 0 0, e_x = 77, e_y = 100, e_width = 24, e_height = 24,
              e_speed = 250, e_trail = [], e_stuckTime = 0, e_flankTimer = 0,
              e_flankDir = (0, 0)\<rparr>"

definition gsLava :: gameState where
  "gsLava = gsEx\<lparr>gs_map := mapLava, gs_players := [playerLava], gs_enemies := [enemyEx],
                  gs_boats := [boatEx]\<rparr>"

definition gsLavaNoBoat :: gameState where
  "gsLavaNoBoat = gsLava\<lparr>gs_boats := []\<rparr>"

text \<open>A sequence of random numbers that is constant.\<close>

definition rndEx :: random where
  "rndEx = (\<lambda>n. 1 / 16)"

text \<open>
  Another constant sequence, whose attempts fall on the tile \<open>(25, 25)\<close>, and a state in
  which the coins are seeded and the coin timer has reached the interval.
\<close>

definition rndHalf :: random where
  "rndHalf = (\<lambda>n. 1 / 2)"

definition gsDue :: gameState where
  "gsDue = gsEx\<lparr>gs_coinsInitialized := True, gs_coinSpawnTimer := 12\<rparr>"

definition gsLavaImmune :: gameState where
  "gsLavaImmune = gsLava\<lparr>gs_players := [playerLava\<lparr>p_immunityActive := True\<rparr>]\<rparr>"

text \<open>
  A room with one player, and the state that \<^verbatim>\<open>initializeRoom\<close> builds for it with the seed
  1 and the constant random sequence: the player, and the four portals, at the centre of
  the road tile \<open>(4, 4)\<close>, and no enemy, the only candidate being the player's tile.
\<close>

definition roomEx :: room where
  "roomEx = \<lparr>r_code = ''ROOM01'', r_hostId = ''a'',
     r_players = [\<lparr>rp_id = ''a'', rp_name = ''Player_a'', rp_isHost = True, rp_coins = 0\<rparr>],
     r_status = PLAYING, r_createdAt = 0, r_maxPlayers = 4\<rparr>"

definition portalEx :: "nat \<Rightarrow> portal" where
  "portalEx n = \<lparr>po_id = Indexed ''portal'' n, po_x = 288, po_y = 288,
     po_color = Hsl (n * 90) 100 50, po_angle = 0, po_life = None\<rparr>"

definition gsStart :: gameState where
  "gsStart = newGameState ''ROOM01'' (generateMap 1)
     [newPlayer \<lparr>rp_id = ''a'', rp_name = ''Player_a'', rp_isHost = True, rp_coins = 0\<rparr> 288 288]
     [] initializeBoats [portalEx 0, portalEx 1, portalEx 2, portalEx 3]
     (1 / 16) (1 / 16) (1 / 16) 1"

text \<open>
  Two rooms that are playing, their states, and a pipeline that throws in the first room
  and advances the game time in any other.
\<close>

definition roomB :: room where
  "roomB = roomEx\<lparr>r_code := ''ROOM02'', r_hostId := ''b''\<rparr>"

definition gsB :: gameState where
  "gsB = gsEx\<lparr>gs_roomCode := ''ROOM02''\<rparr>"

definition statesEx :: "string \<rightharpoonup> gameState" where
  "statesEx = [''ROOM01'' \<mapsto> gsEx, ''ROOM02'' \<mapsto> gsB]"

definition pipelineEx :: "unit pipeline" where
  "pipelineEx deltaTime currentTime gameState w =
     (if gs_roomCode gameState = ''ROOM01'' then (Some (Thrown ''TypeError''), gameState, w)
      else (None, gameState\<lparr>gs_gameTime := gs_gameTime gameState + deltaTime\<rparr>, w))"

subsection \<open>Properties of the sort\<close>

lemma fold_upt_invariant:
  assumes "P a x" and "a \<le> b"
    and "\<And>i y. a \<le> i \<Longrightarrow> i < b \<Longrightarrow> P i y \<Longrightarrow> P (Suc i) (g i y)"
  shows "P b (fold g [a ..< b] x)"
  using assms(2,3)
proof (induction b)
  case 0
  with assms(1) show ?case by simp
next
  case (Suc b)
  show ?case
  proof (cases "a = Suc b")
    case True
    with assms(1) show ?thesis by simp
  next
    case False
    with Suc.prems(1) have ab: "a \<le> b" by simp
    have "P b (fold g [a ..< b] x)"
      using ab Suc.prems(2) by (intro Suc.IH) simp_all
    with ab Suc.prems(2) [of b "fold g [a ..< b] x"] show ?thesis by simp
  qed
qed

lemma findInsertionPoint_bounds:
  "left \<le> right \<Longrightarrow>
   left \<le> findInsertionPoint neg pivot xs left right \<and>
   findInsertionPoint neg pivot xs left right \<le> right"
proof (induction neg pivot xs left right rule: findInsertionPoint.induct)
  case (1 neg pivot xs left right)
  show ?case
  proof (cases "left < right")
    case False
    with "1.prems" show ?thesis by (simp add: findInsertionPoint.simps)
  next
    case True
    define mid where "mid = left + (right - left) div 2"
    have m: "left \<le> mid" "mid < right" using True by (simp_all add: mid_def)
    show ?thesis
    proof (cases "neg pivot (xs ! mid)")
      case neg: True
      from "1.IH"(1) [OF True mid_def neg] m
      have "left \<le> findInsertionPoint neg pivot xs left mid \<and>
            findInsertionPoint neg pivot xs left mid \<le> mid" by simp
      with True neg m show ?thesis
        by (subst (1 2) findInsertionPoint.simps) (simp add: mid_def [symmetric] Let_def)
    next
      case nneg: False
      from "1.IH"(2) [OF True mid_def nneg] m
      have "mid + 1 \<le> findInsertionPoint neg pivot xs (mid + 1) right \<and>
            findInsertionPoint neg pivot xs (mid + 1) right \<le> right" by simp
      with True nneg m show ?thesis
        by (subst (1 2) findInsertionPoint.simps) (simp add: mid_def [symmetric] Let_def)
    qed
  qed
qed

lemma mset_insertStep:
  assumes "start < length xs"
  shows "mset (insertStep neg start xs) = mset xs"
proof -
  define left where "left = findInsertionPoint neg (xs ! start) xs 0 start"
  have l: "left \<le> start"
    using findInsertionPoint_bounds [of 0 start neg "xs ! start" xs] by (simp add: left_def)
  have a: "xs = take left xs @ drop left xs" by simp
  have b: "drop left xs = take (start - left) (drop left xs) @ drop (start - left) (drop left xs)"
    by (rule append_take_drop_id [symmetric])
  have c: "drop (start - left) (drop left xs) = xs ! start # drop (Suc start) xs"
    using l assms by (simp add: Cons_nth_drop_Suc)
  have "mset xs = mset (take left xs) + mset (take (start - left) (drop left xs)) +
      mset (xs ! start # drop (Suc start) xs)"
    by (metis a b c mset_append add.assoc)
  then show ?thesis
    by (simp add: insertStep_def Let_def left_def [symmetric])
qed

lemma length_insertStep:
  "start < length xs \<Longrightarrow> length (insertStep neg start xs) = length xs"
  by (metis mset_insertStep size_mset)

lemma mset_binaryInsertionSort:
  "mset (binaryInsertionSort neg start xs) = mset xs"
proof (cases "start \<le> length xs")
  case False
  then show ?thesis by (simp add: binaryInsertionSort_def)
next
  case True
  have "mset (fold (insertStep neg) [start ..< length xs] xs) = mset xs \<and>
        length (fold (insertStep neg) [start ..< length xs] xs) = length xs"
    by (rule fold_upt_invariant
          [where P = "\<lambda>i ys. mset ys = mset xs \<and> length ys = length xs"])
       (simp_all add: True mset_insertStep length_insertStep)
  then show ?thesis by (simp add: binaryInsertionSort_def)
qed

lemma runLength_le: "runLength neg desc prev rest \<le> length rest"
  by (induction rest arbitrary: prev) simp_all

lemma mset_rev_take_drop: "mset (rev (take n xs) @ drop n xs) = mset xs"
proof -
  have "mset (rev (take n xs) @ drop n xs) = mset (take n xs @ drop n xs)"
    by (simp only: mset_append mset_rev)
  then show ?thesis by simp
qed

lemma mset_countAndMakeRun: "mset (fst (countAndMakeRun neg xs)) = mset xs"
proof (cases xs)
  case Nil
  then show ?thesis by (simp add: countAndMakeRun_def)
next
  case (Cons x0 ys)
  show ?thesis
  proof (cases ys)
    case Nil
    with Cons show ?thesis by (simp add: countAndMakeRun_def)
  next
    case (Cons x1 rest)
    define n where "n = 2 + runLength neg (neg x1 x0) x1 rest"
    have "fst (countAndMakeRun neg xs) =
        (if neg x1 x0 then rev (take n xs) else take n xs) @ drop n xs"
      using \<open>xs = x0 # ys\<close> Cons by (simp add: countAndMakeRun_def Let_def n_def)
    then show ?thesis
      using mset_rev_take_drop [of n xs] by (simp del: mset_append)
  qed
qed

lemma mset_jsSort: "mset (jsSort neg xs) = mset xs"
  by (simp add: jsSort_def split_beta mset_binaryInsertionSort mset_countAndMakeRun)

lemma length_jsSort: "length (jsSort neg xs) = length xs"
  by (metis mset_jsSort size_mset)

lemma set_jsSort: "set (jsSort neg xs) = set xs"
  by (metis mset_jsSort set_mset_mset)


lemma run_ascending:
  assumes "\<forall>x \<in> set (prev # rest). \<forall>y \<in> set (prev # rest). neg x y = (f x < f y)"
  shows "sorted (map f (prev # take (runLength neg False prev rest) rest))"
  using assms
proof (induction rest arbitrary: prev)
  case Nil
  show ?case by simp
next
  case (Cons cur rest)
  have key: "\<forall>x \<in> set (cur # rest). \<forall>y \<in> set (cur # rest). neg x y = (f x < f y)"
    using Cons.prems by simp
  have c: "neg cur prev = (f cur < f prev)"
    using Cons.prems by simp
  show ?case
  proof (cases "neg cur prev")
    case True
    then show ?thesis by simp
  next
    case False
    with c have "f prev \<le> f cur" by simp
    with Cons.IH [OF key] False show ?thesis by auto
  qed
qed

lemma run_descending:
  fixes f :: "'a \<Rightarrow> 'b::linorder"
  assumes "\<forall>x \<in> set (prev # rest). \<forall>y \<in> set (prev # rest). neg x y = (f x < f y)"
  shows "sorted_wrt (\<lambda>a b. f b < f a) (prev # take (runLength neg True prev rest) rest)"
  using assms
proof (induction rest arbitrary: prev)
  case Nil
  show ?case by simp
next
  case (Cons cur rest)
  have key: "\<forall>x \<in> set (cur # rest). \<forall>y \<in> set (cur # rest). neg x y = (f x < f y)"
    using Cons.prems by simp
  have c: "neg cur prev = (f cur < f prev)"
    using Cons.prems by simp
  have tr: "transp (\<lambda>a b. f b < f a)"
    by (auto simp: transp_def)
  show ?case
  proof (cases "neg cur prev")
    case False
    then show ?thesis by simp
  next
    case True
    with c have lt: "f cur < f prev" by simp
    have rl: "runLength neg True prev (cur # rest) = Suc (runLength neg True cur rest)"
      using True by simp
    from Cons.IH [OF key] lt show ?thesis
      by (simp only: rl take_Suc_Cons sorted_wrt2 [OF tr] simp_thms)
  qed
qed

lemma sorted_rev_descending:
  fixes f :: "'a \<Rightarrow> 'b::linorder"
  shows "sorted_wrt (\<lambda>a b. f b < f a) xs \<Longrightarrow> sorted (map f (rev xs))"
proof -
  assume "sorted_wrt (\<lambda>a b. f b < f a) xs"
  then have "sorted_wrt (\<lambda>a b. f b \<le> f a) xs"
    by (rule sorted_wrt_mono_rel [rotated]) simp
  then have "sorted_wrt (\<lambda>a b. f a \<le> f b) (rev xs)"
    by (simp add: sorted_wrt_rev)
  then show ?thesis by (simp add: sorted_map)
qed

lemma countAndMakeRun_sorted:
  assumes key: "\<forall>x \<in> set xs. \<forall>y \<in> set xs. neg x y = (f x < f y)"
  shows "sorted (map f (take (snd (countAndMakeRun neg xs)) (fst (countAndMakeRun neg xs))))"
proof (cases xs)
  case Nil
  then show ?thesis by (simp add: countAndMakeRun_def)
next
  case (Cons x0 ys)
  show ?thesis
  proof (cases ys)
    case Nil
    with Cons show ?thesis by (simp add: countAndMakeRun_def)
  next
    case ys: (Cons x1 rest)
    define r where "r = runLength neg (neg x1 x0) x1 rest"
    have xs: "xs = x0 # x1 # rest" using Cons ys by simp
    have rl: "r \<le> length rest" by (simp add: r_def runLength_le)
    have tk: "take (2 + r) xs = x0 # x1 # take r rest" by (simp add: xs)
    have len: "length (take (2 + r) xs) = 2 + r" using rl by (simp add: xs)
    have key1: "\<forall>x \<in> set (x1 # rest). \<forall>y \<in> set (x1 # rest). neg x y = (f x < f y)"
      using key by (simp add: xs)
    have c: "neg x1 x0 = (f x1 < f x0)" using key by (simp add: xs)
    have tr: "transp (\<lambda>a b. f b < f a)"
      by (auto simp: transp_def)
    show ?thesis
    proof (cases "neg x1 x0")
      case False
      with c have "f x0 \<le> f x1" by simp
      with run_ascending [OF key1] False have "sorted (map f (x0 # x1 # take r rest))"
        by (auto simp add: r_def)
      then have "sorted (map f (take (2 + r) xs))"
        by (simp only: tk)
      moreover have "countAndMakeRun neg xs = (take (2 + r) xs @ drop (2 + r) xs, 2 + r)"
        using False by (simp add: countAndMakeRun_def xs r_def del: take_Suc_Cons drop_Suc_Cons)
      ultimately show ?thesis by simp
    next
      case True
      with c have "f x1 < f x0" by simp
      with run_descending [OF key1] True
      have "sorted_wrt (\<lambda>a b. f b < f a) (x0 # x1 # take r rest)"
        by (simp only: r_def sorted_wrt2 [OF tr] simp_thms)
      then have "sorted_wrt (\<lambda>a b. f b < f a) (take (2 + r) xs)"
        by (simp only: tk)
      then have "sorted (map f (rev (take (2 + r) xs)))"
        by (rule sorted_rev_descending)
      moreover have "countAndMakeRun neg xs = (rev (take (2 + r) xs) @ drop (2 + r) xs, 2 + r)"
        using True by (simp add: countAndMakeRun_def xs r_def del: take_Suc_Cons drop_Suc_Cons)
      ultimately show ?thesis using len by simp
    qed
  qed
qed

lemma countAndMakeRun_snd:
  "2 \<le> length xs \<Longrightarrow> snd (countAndMakeRun neg xs) \<le> length xs"
  by (cases xs; cases "tl xs")
     (simp_all add: countAndMakeRun_def Let_def runLength_le)

lemma findInsertionPoint_spec:
  assumes "sorted (map f (take R xs))" and "R \<le> length xs"
    and "\<forall>i < R. neg pivot (xs ! i) = (f pivot < f (xs ! i))"
    and "left \<le> right" and "right \<le> R"
    and "\<forall>i < left. f (xs ! i) \<le> f pivot"
    and "\<forall>i. right \<le> i \<and> i < R \<longrightarrow> f pivot < f (xs ! i)"
  shows "(\<forall>i < findInsertionPoint neg pivot xs left right. f (xs ! i) \<le> f pivot) \<and>
         (\<forall>i. findInsertionPoint neg pivot xs left right \<le> i \<and> i < R \<longrightarrow> f pivot < f (xs ! i))"
  using assms
proof (induction neg pivot xs left right rule: findInsertionPoint.induct)
  case (1 neg pivot xs left right)
  show ?case
  proof (cases "left < right")
    case False
    with "1.prems" have "left = right" by simp
    with "1.prems"(6,7) show ?thesis by (simp add: findInsertionPoint.simps)
  next
    case True
    define mid where "mid = left + (right - left) div 2"
    have m: "left \<le> mid" "mid < right" using True by (simp_all add: mid_def)
    have mono: "i \<le> j \<Longrightarrow> j < R \<Longrightarrow> f (xs ! i) \<le> f (xs ! j)" for i j
      using sorted_nth_mono [OF "1.prems"(1), of i j] "1.prems"(2) by simp
    have nm: "neg pivot (xs ! mid) = (f pivot < f (xs ! mid))"
      using "1.prems"(3,5) m by simp
    show ?thesis
    proof (cases "neg pivot (xs ! mid)")
      case neg: True
      have hi: "\<forall>i. mid \<le> i \<and> i < R \<longrightarrow> f pivot < f (xs ! i)"
      proof (intro allI impI)
        fix i assume i: "mid \<le> i \<and> i < R"
        with mono [of mid i] have "f (xs ! mid) \<le> f (xs ! i)" by simp
        with neg nm show "f pivot < f (xs ! i)" by auto
      qed
      have e: "findInsertionPoint neg pivot xs left right = findInsertionPoint neg pivot xs left mid"
        using True neg by (subst findInsertionPoint.simps) (simp add: mid_def [symmetric] Let_def)
      from "1.IH"(1) [OF True mid_def neg "1.prems"(1,2,3) m(1) _ "1.prems"(6) hi] m "1.prems"(5)
      show ?thesis unfolding e by simp
    next
      case nneg: False
      have lo: "\<forall>i < mid + 1. f (xs ! i) \<le> f pivot"
      proof (intro allI impI)
        fix i assume i: "i < mid + 1"
        with mono [of i mid] m "1.prems"(5) have "f (xs ! i) \<le> f (xs ! mid)" by simp
        with nneg nm show "f (xs ! i) \<le> f pivot" by simp
      qed
      have e: "findInsertionPoint neg pivot xs left right =
               findInsertionPoint neg pivot xs (mid + 1) right"
        using True nneg by (subst findInsertionPoint.simps) (simp add: mid_def [symmetric] Let_def)
      from "1.IH"(2) [OF True mid_def nneg "1.prems"(1,2,3) _ "1.prems"(5) lo "1.prems"(7)] m
      show ?thesis unfolding e by simp
    qed
  qed
qed

lemma insertStep_sorted:
  assumes srt: "sorted (map f (take start xs))" and st: "start < length xs"
    and key: "\<forall>x \<in> set xs. \<forall>y \<in> set xs. neg x y = (f x < f y)"
  shows "sorted (map f (take (Suc start) (insertStep neg start xs)))"
proof -
  define pivot where "pivot = xs ! start"
  define left where "left = findInsertionPoint neg pivot xs 0 start"
  define A where "A = take left xs"
  define B where "B = take (start - left) (drop left xs)"
  have l: "left \<le> start"
    using findInsertionPoint_bounds [of 0 start neg pivot xs] by (simp add: left_def)
  have k: "\<forall>i < start. neg pivot (xs ! i) = (f pivot < f (xs ! i))"
    using key st by (simp add: pivot_def)
  have vac: "\<forall>i. start \<le> i \<and> i < start \<longrightarrow> f pivot < f (xs ! i)" by auto
  from findInsertionPoint_spec [of f start xs neg pivot 0 start, OF srt _ k _ _ _ vac] st
  have lo: "\<forall>i < left. f (xs ! i) \<le> f pivot"
    and hi: "\<forall>i. left \<le> i \<and> i < start \<longrightarrow> f pivot < f (xs ! i)"
    by (simp_all add: left_def)
  have AB: "take start xs = A @ B"
    using l by (simp add: A_def B_def take_add [symmetric])
  have lenA: "length A = left" using l st by (simp add: A_def)
  have lenB: "length B = start - left" using l st by (simp add: B_def)
  have a: "\<forall>x \<in> set A. f x \<le> f pivot"
  proof
    fix x assume "x \<in> set A"
    then obtain i where "i < left" "x = xs ! i"
      using lenA by (auto simp: in_set_conv_nth A_def)
    with lo show "f x \<le> f pivot" by simp
  qed
  have b: "\<forall>x \<in> set B. f pivot \<le> f x"
  proof
    fix x assume "x \<in> set B"
    then obtain i where i: "i < start - left" "x = B ! i"
      using lenB by (auto simp: in_set_conv_nth)
    then have "x = xs ! (left + i)" using l st by (simp add: B_def)
    with hi i(1) show "f pivot \<le> f x" by (simp add: less_imp_le)
  qed
  from srt have "sorted (map f A @ map f B)" by (simp add: AB)
  with a b have "sorted (map f (A @ pivot # B))"
    by (auto simp: sorted_append)
  moreover have "take (Suc start) (insertStep neg start xs) = A @ pivot # B"
  proof -
    have "insertStep neg start xs = (A @ pivot # B) @ drop (Suc start) xs"
      by (simp add: insertStep_def Let_def pivot_def [symmetric] left_def [symmetric]
          A_def [symmetric] B_def [symmetric])
    moreover have "length (A @ pivot # B) = Suc start"
      using l lenA lenB by simp
    ultimately show ?thesis by (metis append_eq_conv_conj)
  qed
  ultimately show ?thesis by simp
qed

lemma set_insertStep: "start < length xs \<Longrightarrow> set (insertStep neg start xs) = set xs"
  by (metis mset_insertStep set_mset_mset)

lemma binaryInsertionSort_sorted:
  assumes srt: "sorted (map f (take start xs))" and st: "start \<le> length xs"
    and key: "\<forall>x \<in> set xs. \<forall>y \<in> set xs. neg x y = (f x < f y)"
  shows "sorted (map f (binaryInsertionSort neg start xs))"
proof -
  let ?P = "\<lambda>i ys. length ys = length xs \<and> set ys = set xs \<and> sorted (map f (take i ys))"
  have "?P (length xs) (fold (insertStep neg) [start ..< length xs] xs)"
  proof (rule fold_upt_invariant [where P = ?P])
    show "?P start xs" using srt by simp
  next
    show "start \<le> length xs" by (rule st)
  next
    fix i ys
    assume i: "start \<le> i" "i < length xs" and p: "?P i ys"
    from p i have il: "i < length ys" by simp
    from p key have k: "\<forall>x \<in> set ys. \<forall>y \<in> set ys. neg x y = (f x < f y)" by simp
    from p have s: "sorted (map f (take i ys))" by simp
    from insertStep_sorted [OF s il k] length_insertStep [OF il] set_insertStep [OF il] p
    show "?P (Suc i) (insertStep neg i ys)" by simp
  qed
  then have "length (binaryInsertionSort neg start xs) = length xs"
    and "sorted (map f (take (length xs) (binaryInsertionSort neg start xs)))"
    by (simp_all only: binaryInsertionSort_def)
  then show ?thesis by simp
qed

lemma set_countAndMakeRun: "set (fst (countAndMakeRun neg xs)) = set xs"
  by (metis mset_countAndMakeRun set_mset_mset)

lemma length_countAndMakeRun: "length (fst (countAndMakeRun neg xs)) = length xs"
  by (metis mset_countAndMakeRun size_mset)

lemma sorted_jsSort:
  assumes key: "\<forall>x \<in> set xs. \<forall>y \<in> set xs. neg x y = (f x < f y)"
  shows "sorted (map f (jsSort neg xs))"
proof (cases "length xs < 2")
  case True
  then show ?thesis
    by (cases xs; cases "tl xs") (auto simp: jsSort_def)
next
  case False
  define ys where "ys = fst (countAndMakeRun neg xs)"
  define n where "n = snd (countAndMakeRun neg xs)"
  have k: "\<forall>x \<in> set ys. \<forall>y \<in> set ys. neg x y = (f x < f y)"
    using key by (simp add: ys_def set_countAndMakeRun)
  have n: "n \<le> length ys"
    using False countAndMakeRun_snd [of xs neg] by (simp add: n_def ys_def length_countAndMakeRun)
  have s: "sorted (map f (take n ys))"
    unfolding n_def ys_def using key by (rule countAndMakeRun_sorted)
  from binaryInsertionSort_sorted [OF s n k] False show ?thesis
    by (simp add: jsSort_def split_beta ys_def n_def)
qed

lemma descending_filter_rev:
  fixes f :: "'a \<Rightarrow> 'b::linorder"
  assumes "sorted_wrt (\<lambda>a b. f b < f a) xs"
  shows "filter (\<lambda>x. f x = k) (rev xs) = filter (\<lambda>x. f x = k) xs"
  using assms
proof (induction xs)
  case Nil
  show ?case by simp
next
  case (Cons x xs)
  then have IH: "filter (\<lambda>x. f x = k) (rev xs) = filter (\<lambda>x. f x = k) xs"
    and less: "\<forall>y \<in> set xs. f y < f x"
    by simp_all
  show ?case
  proof (cases "f x = k")
    case True
    with less have "filter (\<lambda>x. f x = k) xs = []"
      by (auto simp: filter_empty_conv)
    with IH True show ?thesis by simp
  next
    case False
    with IH show ?thesis by simp
  qed
qed

lemma countAndMakeRun_stable:
  fixes f :: "'a \<Rightarrow> 'b::linorder"
  assumes key: "\<forall>x \<in> set xs. \<forall>y \<in> set xs. neg x y = (f x < f y)"
  shows "filter (\<lambda>x. f x = k) (fst (countAndMakeRun neg xs)) = filter (\<lambda>x. f x = k) xs"
proof (cases xs)
  case Nil
  then show ?thesis by (simp add: countAndMakeRun_def)
next
  case (Cons x0 ys)
  show ?thesis
  proof (cases ys)
    case Nil
    with Cons show ?thesis by (simp add: countAndMakeRun_def)
  next
    case ys: (Cons x1 rest)
    define r where "r = runLength neg (neg x1 x0) x1 rest"
    have xs: "xs = x0 # x1 # rest" using Cons ys by simp
    have tk: "take (2 + r) xs = x0 # x1 # take r rest" by (simp add: xs)
    have key1: "\<forall>x \<in> set (x1 # rest). \<forall>y \<in> set (x1 # rest). neg x y = (f x < f y)"
      using key by (simp add: xs)
    have c: "neg x1 x0 = (f x1 < f x0)" using key by (simp add: xs)
    have tr: "transp (\<lambda>a b. f b < f a)"
      by (auto simp: transp_def)
    have split: "filter (\<lambda>x. f x = k) xs =
        filter (\<lambda>x. f x = k) (take (2 + r) xs) @ filter (\<lambda>x. f x = k) (drop (2 + r) xs)"
      by (metis append_take_drop_id filter_append)
    show ?thesis
    proof (cases "neg x1 x0")
      case False
      then have "countAndMakeRun neg xs = (take (2 + r) xs @ drop (2 + r) xs, 2 + r)"
        by (simp add: countAndMakeRun_def xs r_def del: take_Suc_Cons drop_Suc_Cons)
      then show ?thesis by simp
    next
      case True
      with c have "f x1 < f x0" by simp
      with run_descending [OF key1] True
      have "sorted_wrt (\<lambda>a b. f b < f a) (x0 # x1 # take r rest)"
        by (simp only: r_def sorted_wrt2 [OF tr] simp_thms)
      then have "sorted_wrt (\<lambda>a b. f b < f a) (take (2 + r) xs)"
        by (simp only: tk)
      then have "filter (\<lambda>x. f x = k) (rev (take (2 + r) xs)) =
                 filter (\<lambda>x. f x = k) (take (2 + r) xs)"
        by (rule descending_filter_rev)
      moreover have "countAndMakeRun neg xs = (rev (take (2 + r) xs) @ drop (2 + r) xs, 2 + r)"
        using True by (simp add: countAndMakeRun_def xs r_def del: take_Suc_Cons drop_Suc_Cons)
      ultimately show ?thesis
        using split by (simp only: fst_conv filter_append)
    qed
  qed
qed

lemma insertStep_stable:
  fixes f :: "'a \<Rightarrow> 'b::linorder"
  assumes srt: "sorted (map f (take start xs))" and st: "start < length xs"
    and key: "\<forall>x \<in> set xs. \<forall>y \<in> set xs. neg x y = (f x < f y)"
  shows "filter (\<lambda>x. f x = k) (insertStep neg start xs) = filter (\<lambda>x. f x = k) xs"
proof -
  define pivot where "pivot = xs ! start"
  define left where "left = findInsertionPoint neg pivot xs 0 start"
  define A where "A = take left xs"
  define B where "B = take (start - left) (drop left xs)"
  define C where "C = drop (Suc start) xs"
  have l: "left \<le> start"
    using findInsertionPoint_bounds [of 0 start neg pivot xs] by (simp add: left_def)
  have kk: "\<forall>i < start. neg pivot (xs ! i) = (f pivot < f (xs ! i))"
    using key st by (simp add: pivot_def)
  have vac: "\<forall>i. start \<le> i \<and> i < start \<longrightarrow> f pivot < f (xs ! i)" by auto
  from findInsertionPoint_spec [of f start xs neg pivot 0 start, OF srt _ kk _ _ _ vac] st
  have hi: "\<forall>i. left \<le> i \<and> i < start \<longrightarrow> f pivot < f (xs ! i)"
    by (simp_all add: left_def)
  have lenB: "length B = start - left" using l st by (simp add: B_def)
  have b: "\<forall>x \<in> set B. f pivot < f x"
  proof
    fix x assume "x \<in> set B"
    then obtain i where i: "i < start - left" "x = B ! i"
      using lenB by (auto simp: in_set_conv_nth)
    then have "x = xs ! (left + i)" using l st by (simp add: B_def)
    with hi i(1) show "f pivot < f x" by simp
  qed
  have AB: "take start xs = A @ B"
    using l by (simp add: A_def B_def take_add [symmetric])
  have "xs = take start xs @ xs ! start # drop (Suc start) xs"
    using st by (simp add: id_take_nth_drop [symmetric])
  then have xs: "xs = A @ B @ pivot # C"
    by (simp add: AB pivot_def C_def)
  have ins: "insertStep neg start xs = A @ pivot # B @ C"
    by (simp add: insertStep_def Let_def pivot_def [symmetric] left_def [symmetric]
        A_def [symmetric] B_def [symmetric] C_def [symmetric])
  have "filter (\<lambda>x. f x = k) (A @ pivot # B @ C) = filter (\<lambda>x. f x = k) (A @ B @ pivot # C)"
  proof (cases "f pivot = k")
    case True
    with b have "filter (\<lambda>x. f x = k) B = []"
      by (auto simp: filter_empty_conv)
    then show ?thesis by simp
  next
    case False
    then show ?thesis by simp
  qed
  with ins xs show ?thesis by metis
qed

lemma binaryInsertionSort_stable:
  fixes f :: "'a \<Rightarrow> 'b::linorder"
  assumes srt: "sorted (map f (take start xs))" and st: "start \<le> length xs"
    and key: "\<forall>x \<in> set xs. \<forall>y \<in> set xs. neg x y = (f x < f y)"
  shows "filter (\<lambda>x. f x = k) (binaryInsertionSort neg start xs) = filter (\<lambda>x. f x = k) xs"
proof -
  let ?P = "\<lambda>i ys. length ys = length xs \<and> set ys = set xs \<and> sorted (map f (take i ys)) \<and>
                   filter (\<lambda>x. f x = k) ys = filter (\<lambda>x. f x = k) xs"
  have "?P (length xs) (fold (insertStep neg) [start ..< length xs] xs)"
  proof (rule fold_upt_invariant [where P = ?P])
    show "?P start xs" using srt by simp
  next
    show "start \<le> length xs" by (rule st)
  next
    fix i ys
    assume i: "start \<le> i" "i < length xs" and p: "?P i ys"
    from p i have il: "i < length ys" by simp
    from p key have kk: "\<forall>x \<in> set ys. \<forall>y \<in> set ys. neg x y = (f x < f y)" by simp
    from p have s: "sorted (map f (take i ys))" by simp
    from insertStep_sorted [OF s il kk] length_insertStep [OF il] set_insertStep [OF il]
      insertStep_stable [OF s il kk, of k] p
    show "?P (Suc i) (insertStep neg i ys)" by simp
  qed
  then show ?thesis by (simp only: binaryInsertionSort_def)
qed

text \<open>
  With a comparator that compares a key, the sort is the stable sort by that key.
\<close>

lemma jsSort_sort_key:
  fixes f :: "'a \<Rightarrow> 'b::linorder"
  assumes key: "\<forall>x \<in> set xs. \<forall>y \<in> set xs. neg x y = (f x < f y)"
  shows "jsSort neg xs = sort_key f xs"
proof -
  have stable: "filter (\<lambda>x. f x = k) (jsSort neg xs) = filter (\<lambda>x. f x = k) xs" for k
  proof (cases "length xs < 2")
    case True
    then show ?thesis by (simp add: jsSort_def)
  next
    case False
    define ys where "ys = fst (countAndMakeRun neg xs)"
    define n where "n = snd (countAndMakeRun neg xs)"
    have kk: "\<forall>x \<in> set ys. \<forall>y \<in> set ys. neg x y = (f x < f y)"
      using key by (simp add: ys_def set_countAndMakeRun)
    have n: "n \<le> length ys"
      using False countAndMakeRun_snd [of xs neg] by (simp add: n_def ys_def length_countAndMakeRun)
    have s: "sorted (map f (take n ys))"
      unfolding n_def ys_def using key by (rule countAndMakeRun_sorted)
    from binaryInsertionSort_stable [OF s n kk, of k] countAndMakeRun_stable [OF key, of k] False
    show ?thesis
      by (simp add: jsSort_def split_beta ys_def n_def)
  qed
  have "sort_key f xs = jsSort neg xs"
  proof (rule properties_for_sort_key)
    show "mset (jsSort neg xs) = mset xs" by (rule mset_jsSort)
  next
    fix k assume "k \<in> set (jsSort neg xs)"
    from stable [of "f k"]
    show "filter (\<lambda>x. f k = f x) (jsSort neg xs) = filter (\<lambda>x. f k = f x) xs"
      by (simp add: eq_commute)
  next
    show "sorted (map f (jsSort neg xs))" using key by (rule sorted_jsSort)
  qed
  then show ?thesis by simp
qed

subsection \<open>Properties of the input buffer\<close>

lemma byTimestamp_numeric:
  assumes "timestamp a \<noteq> NaN" and "timestamp b \<noteq> NaN"
  shows "byTimestamp a b = (timestampOf a < timestampOf b)"
  using assms by (cases "timestamp a"; cases "timestamp b") (simp_all add: byTimestamp_def timestampOf_def)

lemma jsLe_numeric:
  assumes "timestamp a \<noteq> NaN" and "timestamp b \<noteq> NaN"
  shows "jsLe (timestamp a) (timestamp b) = (timestampOf a \<le> timestampOf b)"
  using assms by (cases "timestamp a"; cases "timestamp b") (simp_all add: timestampOf_def)

lemma tsOrdered_numeric:
  "numericBuffer b \<Longrightarrow> tsOrdered b = sorted (map timestampOf b)"
  by (induction b) (auto simp: tsOrdered_def numericBuffer_def jsLe_numeric)

lemma bufferPlayerInput_other:
  "q \<noteq> playerId \<Longrightarrow> bufferPlayerInput bufs playerId inp ts q = bufs q"
  by (simp add: bufferPlayerInput_def Let_def)

lemma bufferPlayerInput_own:
  "bufferOf (bufferPlayerInput bufs playerId inp ts) playerId =
     (if length (bufferOf bufs playerId) \<ge> 60
      then tl (jsSort byTimestamp (bufferOf bufs playerId @ [inp\<lparr>timestamp := ts, processed := False\<rparr>]))
      else jsSort byTimestamp (bufferOf bufs playerId @ [inp\<lparr>timestamp := ts, processed := False\<rparr>]))"
  by (simp add: bufferPlayerInput_def Let_def bufferOf_def length_jsSort)

text \<open>
  A push with a number onto a buffer without \<^verbatim>\<open>NaN\<close> appends, sorts stably by timestamp
  and drops the first entry when the buffer was full.
\<close>

lemma bufferPlayerInput_sort_key:
  assumes "numericBuffer (bufferOf bufs playerId)"
  shows "bufferOf (bufferPlayerInput bufs playerId inp (Num t)) playerId =
     (if length (bufferOf bufs playerId) \<ge> 60
      then tl (sort_key timestampOf
                 (bufferOf bufs playerId @ [inp\<lparr>timestamp := Num t, processed := False\<rparr>]))
      else sort_key timestampOf
             (bufferOf bufs playerId @ [inp\<lparr>timestamp := Num t, processed := False\<rparr>]))"
proof -
  let ?pushed = "bufferOf bufs playerId @ [inp\<lparr>timestamp := Num t, processed := False\<rparr>]"
  have "numericBuffer ?pushed"
    using assms by (simp add: numericBuffer_def)
  then have "\<forall>x \<in> set ?pushed. \<forall>y \<in> set ?pushed. byTimestamp x y = (timestampOf x < timestampOf y)"
    by (simp add: numericBuffer_def byTimestamp_numeric)
  then have "jsSort byTimestamp ?pushed = sort_key timestampOf ?pushed"
    by (rule jsSort_sort_key)
  then show ?thesis by (simp add: bufferPlayerInput_own)
qed

text \<open>
  What a push does to the entries, whatever the timestamps: below 60 entries the buffer
  gains the new entry; at 60 it gains the new entry and loses the one that the sort has
  put first.
\<close>

lemma bufferPlayerInput_entries:
  assumes "ordered = jsSort byTimestamp (bufferOf bufs playerId @ [inp\<lparr>timestamp := ts, processed := False\<rparr>])"
  shows "mset ordered = add_mset (inp\<lparr>timestamp := ts, processed := False\<rparr>) (mset (bufferOf bufs playerId))"
    and "length (bufferOf bufs playerId) < 60 \<Longrightarrow>
           bufferOf (bufferPlayerInput bufs playerId inp ts) playerId = ordered"
    and "length (bufferOf bufs playerId) \<ge> 60 \<Longrightarrow>
           hd ordered # bufferOf (bufferPlayerInput bufs playerId inp ts) playerId = ordered"
proof -
  show "mset ordered = add_mset (inp\<lparr>timestamp := ts, processed := False\<rparr>) (mset (bufferOf bufs playerId))"
    by (simp add: assms mset_jsSort)
  show "length (bufferOf bufs playerId) < 60 \<Longrightarrow>
           bufferOf (bufferPlayerInput bufs playerId inp ts) playerId = ordered"
    by (simp add: bufferPlayerInput_own assms)
  have "ordered \<noteq> []"
    using length_jsSort [of byTimestamp "bufferOf bufs playerId @ [inp\<lparr>timestamp := ts, processed := False\<rparr>]"]
    by (auto simp: assms)
  then show "length (bufferOf bufs playerId) \<ge> 60 \<Longrightarrow>
           hd ordered # bufferOf (bufferPlayerInput bufs playerId inp ts) playerId = ordered"
    by (simp add: bufferPlayerInput_own assms [symmetric])
qed

lemma length_bufferPlayerInput:
  assumes "length (bufferOf bufs playerId) \<le> 60"
  shows "length (bufferOf (bufferPlayerInput bufs playerId inp ts) playerId) =
           min 60 (Suc (length (bufferOf bufs playerId)))"
  using assms by (simp add: bufferPlayerInput_own length_jsSort)

lemma tsOrdered_tl: "tsOrdered b \<Longrightarrow> tsOrdered (tl b)"
  by (cases b) (simp_all add: tsOrdered_def)

lemma numericBuffer_tl: "numericBuffer b \<Longrightarrow> numericBuffer (tl b)"
  by (cases b) (simp_all add: numericBuffer_def)

text \<open>A push with a number keeps the invariant of a buffer without \<^verbatim>\<open>NaN\<close>.\<close>

lemma bufferPlayerInput_numeric:
  assumes "bufferOk (bufferOf bufs playerId)"
  shows "bufferOk (bufferOf (bufferPlayerInput bufs playerId inp (Num t)) playerId)"
proof -
  define pushed where
    "pushed = bufferOf bufs playerId @ [inp\<lparr>timestamp := Num t, processed := False\<rparr>]"
  define ordered where "ordered = jsSort byTimestamp pushed"
  have num: "numericBuffer pushed"
    using assms by (simp add: pushed_def bufferOk_def numericBuffer_def)
  then have key: "\<forall>x \<in> set pushed. \<forall>y \<in> set pushed. byTimestamp x y = (timestampOf x < timestampOf y)"
    by (simp add: numericBuffer_def byTimestamp_numeric)
  have n: "numericBuffer ordered"
    using num by (simp add: ordered_def numericBuffer_def set_jsSort)
  have "sorted (map timestampOf ordered)"
    unfolding ordered_def using key by (rule sorted_jsSort)
  with n have s: "tsOrdered ordered" by (simp add: tsOrdered_numeric)
  have new: "bufferOf (bufferPlayerInput bufs playerId inp (Num t)) playerId =
      (if length (bufferOf bufs playerId) \<ge> 60 then tl ordered else ordered)"
    by (simp add: bufferPlayerInput_own ordered_def pushed_def)
  have "length (bufferOf (bufferPlayerInput bufs playerId inp (Num t)) playerId) \<le> 60"
    using assms by (simp add: length_bufferPlayerInput bufferOk_def)
  with n s show ?thesis
    by (simp add: new bufferOk_def tsOrdered_tl numericBuffer_tl)
qed

lemma bufferOf_update: "bufferOf (bufs(p \<mapsto> b)) q = (if q = p then b else bufferOf bufs q)"
  by (simp add: bufferOf_def)

lemma length_markProcessed: "length (markProcessed buffer currentTime k) = length buffer"
  by (simp add: markProcessed_def)

lemma nth_markProcessed:
  "i < length buffer \<Longrightarrow>
   markProcessed buffer currentTime k ! i =
     (if i = k \<or> (i < k \<and> jsLe (timestamp (buffer ! i)) (Num (real_of_int currentTime)))
      then (buffer ! i)\<lparr>processed := True\<rparr> else buffer ! i)"
  by (simp add: markProcessed_def)

lemma map_timestamp_markProcessed:
  "map timestamp (markProcessed buffer currentTime k) = map timestamp buffer"
  by (rule nth_equalityI) (simp_all add: markProcessed_def)

lemma map_timestamp_markedBuffer:
  "map timestamp (markedBuffer buffer currentTime) = map timestamp buffer"
  by (simp add: markedBuffer_def map_timestamp_markProcessed split: option.splits)

lemma length_markedBuffer: "length (markedBuffer buffer currentTime) = length buffer"
  using map_timestamp_markedBuffer [of buffer currentTime] by (metis length_map)

lemma tsOrdered_map: "tsOrdered b = sorted_wrt jsLe (map timestamp b)"
  by (simp add: tsOrdered_def sorted_wrt_map)

lemma numericBuffer_map: "numericBuffer b = (NaN \<notin> set (map timestamp b))"
  by (force simp: numericBuffer_def)

lemma tsOrdered_filter: "tsOrdered b \<Longrightarrow> tsOrdered (filter P b)"
  by (simp add: tsOrdered_def sorted_wrt_filter)

lemma bufferOk_active:
  assumes "bufferOk buffer"
  shows "bufferOk (filter P (markedBuffer buffer currentTime))"
proof -
  have l: "length (filter P (markedBuffer buffer currentTime)) \<le> length buffer"
    using length_filter_le [of P "markedBuffer buffer currentTime"]
    by (simp add: length_markedBuffer)
  have "tsOrdered (markedBuffer buffer currentTime)"
    using assms by (simp add: tsOrdered_map map_timestamp_markedBuffer bufferOk_def)
  then have s: "tsOrdered (filter P (markedBuffer buffer currentTime))"
    by (rule tsOrdered_filter)
  have "numericBuffer (markedBuffer buffer currentTime)"
    using assms by (simp add: numericBuffer_map map_timestamp_markedBuffer bufferOk_def)
  then have "numericBuffer (filter P (markedBuffer buffer currentTime))"
    by (simp add: numericBuffer_def)
  with l s assms show ?thesis by (simp add: bufferOk_def)
qed

lemma processPlayer_keeps:
  assumes "\<And>b P. Q b \<Longrightarrow> Q (filter P (markedBuffer b currentTime))"
    and "\<forall>q. Q (bufferOf bufs q)"
  shows "\<forall>q. Q (bufferOf (snd (processPlayer gameState deltaTime currentTime player bufs)) q)"
  using assms by (simp add: processPlayer_def Let_def bufferOf_update)

lemma processPlayers_keeps:
  assumes "\<And>b P. Q b \<Longrightarrow> Q (filter P (markedBuffer b currentTime))"
  shows "\<forall>q. Q (bufferOf bufs q) \<Longrightarrow>
         \<forall>q. Q (bufferOf (snd (processPlayers gameState deltaTime currentTime ps bufs)) q)"
proof (induction ps arbitrary: bufs)
  case Nil
  then show ?case by simp
next
  case (Cons p ps)
  have "\<forall>q. Q (bufferOf (snd (processPlayer gameState deltaTime currentTime p bufs)) q)"
    using assms Cons.prems by (rule processPlayer_keeps)
  from Cons.IH [OF this] show ?case
    by (simp add: split_beta Let_def)
qed

lemma processPlayerInputs_keeps:
  assumes "\<And>b P. Q b \<Longrightarrow> Q (filter P (markedBuffer b currentTime))"
    and "\<forall>q. Q (bufferOf bufs q)"
  shows "\<forall>q. Q (bufferOf (snd (processPlayerInputs gameState deltaTime currentTime bufs)) q)"
  using processPlayers_keeps [of Q currentTime bufs gameState deltaTime "gs_players gameState", OF assms]
  by (simp add: processPlayerInputs_def split_beta)

lemma buffersOk_bufferOf: "buffersOk bufs = (\<forall>q. bufferOk (bufferOf bufs q))"
  by (auto simp: buffersOk_def bufferOf_def bufferOk_def numericBuffer_def tsOrdered_def
      split: option.splits)

text \<open>
  As long as every push carries a number, every buffer has at most 60 entries, in
  timestamp order: a push and a pass of the loop keep \<open>buffersOk\<close>.
\<close>

lemma bufferPlayerInput_ok:
  assumes "buffersOk bufs"
  shows "buffersOk (bufferPlayerInput bufs playerId inp (Num t))"
  unfolding buffersOk_bufferOf
proof
  fix q
  show "bufferOk (bufferOf (bufferPlayerInput bufs playerId inp (Num t)) q)"
  proof (cases "q = playerId")
    case True
    with assms show ?thesis by (simp add: bufferPlayerInput_numeric buffersOk_bufferOf)
  next
    case False
    with assms show ?thesis
      by (simp add: bufferOf_def bufferPlayerInput_other buffersOk_bufferOf [unfolded bufferOf_def])
  qed
qed

lemma processPlayerInputs_ok:
  assumes "buffersOk bufs"
  shows "buffersOk (snd (processPlayerInputs gameState deltaTime currentTime bufs))"
  using processPlayerInputs_keeps [of bufferOk currentTime bufs gameState deltaTime] assms
  by (simp add: buffersOk_bufferOf bufferOk_active)

text \<open>Whatever the timestamps, no buffer that the program can hold has more than 60 entries.\<close>

lemma reachableBuffers_bounded:
  "reachableBuffers bufs \<Longrightarrow> length (bufferOf bufs q) \<le> 60"
proof (induction arbitrary: q rule: reachableBuffers.induct)
  case created
  show ?case by (simp add: bufferOf_def)
next
  case (pushed bufs playerId inp ts)
  show ?case
  proof (cases "q = playerId")
    case True
    with pushed.IH [of playerId] show ?thesis by (simp add: length_bufferPlayerInput)
  next
    case False
    with pushed.IH [of q] show ?thesis by (simp add: bufferOf_def bufferPlayerInput_other)
  qed
next
  case (ticked bufs gameState deltaTime currentTime)
  have "\<And>b P. length b \<le> 60 \<Longrightarrow> length (filter P (markedBuffer b currentTime)) \<le> 60"
    using length_filter_le length_markedBuffer by (metis order_trans)
  from processPlayerInputs_keeps [of "\<lambda>b. length b \<le> 60" currentTime bufs gameState deltaTime, OF this]
    ticked.IH
  show ?case by simp
next
  case (deleted bufs playerId)
  from deleted.IH [of q] show ?case by (simp add: bufferOf_def)
qed

lemma bufsMixed_a:
  "bufferOf bufsMixed ''a'' =
     [in1\<lparr>timestamp := Num 5\<rparr>, in1\<lparr>timestamp := NaN\<rparr>, inRight\<lparr>timestamp := Num 3\<rparr>]"
  unfolding bufsMixed_def in1_def inRight_def by code_simp

text \<open>
  Claim C7 fails in the code when a client sends a timestamp that is no number. After
  the pushes with the timestamps \<^verbatim>\<open>5\<close>, \<^verbatim>\<open>"x"\<close> and \<^verbatim>\<open>3\<close> the buffer holds the three entries in
  the order of the pushes: every result of the comparator is \<^verbatim>\<open>NaN\<close> where \<^verbatim>\<open>"x"\<close> takes
  part, so the whole array is one run and nothing moves. The buffer is not in timestamp
  order, the entry of timestamp 3 standing after the entry of timestamp 5. (The bound of
  60 entries holds, lemma \<open>reachableBuffers_bounded\<close>, and so does the order as long as
  every timestamp is a number, lemma \<open>bufferPlayerInput_ok\<close>.)
\<close>

theorem non_numeric_timestamp_breaks_order:
  "bufferOf bufsMixed ''a'' =
     [in1\<lparr>timestamp := Num 5\<rparr>, in1\<lparr>timestamp := NaN\<rparr>, inRight\<lparr>timestamp := Num 3\<rparr>] \<and>
   \<not> tsOrdered (bufferOf bufsMixed ''a'') \<and>
   timestamp (bufferOf bufsMixed ''a'' ! 0) = Num 5 \<and>
   timestamp (bufferOf bufsMixed ''a'' ! 2) = Num 3 \<and>
   reachableBuffers bufsMixed"
proof -
  have "reachableBuffers bufsMixed"
    unfolding bufsMixed_def by (intro reachableBuffers.intros)
  then show ?thesis
    by (simp add: bufsMixed_a tsOrdered_def in1_def inRight_def)
qed

subsection \<open>Properties of the input pass\<close>

lemma eligible_Num: "eligible now inp \<Longrightarrow> \<exists>x. timestamp inp = Num x"
  by (cases "timestamp inp") (simp_all add: eligible_def)

lemma jsLe_Num: "jsLe a (Num y) \<Longrightarrow> \<exists>x. a = Num x \<and> x \<le> y"
  by (cases a) simp_all

lemma selected_step:
  assumes "selected b now (Suc i) n latest" and "i < n"
  shows "selected b now i n
           (if \<not> processed (b ! i) \<and> jsLe (timestamp (b ! i)) (Num (real_of_int now)) \<and>
               (case latest of None \<Rightarrow> True
                | Some j \<Rightarrow> jsLt (timestamp (b ! j)) (timestamp (b ! i)))
            then Some i else latest)"
proof (cases "eligible now (b ! i)")
  case False
  have "\<And>m. i \<le> m \<Longrightarrow> eligible now (b ! m) \<Longrightarrow> Suc i \<le> m"
    using False by (metis Suc_leI le_neq_implies_less)
  with assms False show ?thesis
    by (auto simp: selected_def eligible_def split: option.splits)
next
  case el: True
  then obtain x where x: "timestamp (b ! i) = Num x" using eligible_Num by blast
  have cases_m: "\<And>m. i \<le> m \<Longrightarrow> m = i \<or> Suc i \<le> m" by auto
  show ?thesis
  proof (cases latest)
    case None
    with assms el x show ?thesis
      using cases_m by (fastforce simp: selected_def eligible_def)
  next
    case (Some k)
    with assms have k: "Suc i \<le> k" "k < n" "eligible now (b ! k)"
      and best: "\<And>m. Suc i \<le> m \<Longrightarrow> m < n \<Longrightarrow> eligible now (b ! m) \<Longrightarrow>
                  jsLe (timestamp (b ! m)) (timestamp (b ! k)) \<and>
                  (timestamp (b ! m) = timestamp (b ! k) \<longrightarrow> m \<le> k)"
      by (simp_all add: selected_def)
    from k(3) obtain y where y: "timestamp (b ! k) = Num y" using eligible_Num by blast
    show ?thesis
    proof (cases "y < x")
      case True
      have "jsLe (timestamp (b ! m)) (timestamp (b ! i)) \<and>
            (timestamp (b ! m) = timestamp (b ! i) \<longrightarrow> m \<le> i)"
        if m: "i \<le> m" "m < n" "eligible now (b ! m)" for m
      proof (cases "m = i")
        case True
        then show ?thesis by (simp add: x)
      next
        case False
        with m have "Suc i \<le> m" by simp
        from best [OF this m(2,3)] obtain z where "timestamp (b ! m) = Num z" "z \<le> y"
          using jsLe_Num by (metis y)
        with True show ?thesis by (simp add: x)
      qed
      with True el assms(2) Some show ?thesis
        by (auto simp: selected_def eligible_def x y)
    next
      case False
      have "jsLe (timestamp (b ! m)) (timestamp (b ! k)) \<and>
            (timestamp (b ! m) = timestamp (b ! k) \<longrightarrow> m \<le> k)"
        if m: "i \<le> m" "m < n" "eligible now (b ! m)" for m
      proof (cases "m = i")
        case True
        with False k(1) show ?thesis by (simp add: x y)
      next
        case ne: False
        with m have "Suc i \<le> m" by simp
        from best [OF this m(2,3)] show ?thesis .
      qed
      with False el k Some show ?thesis
        by (auto simp: selected_def eligible_def x y)
    qed
  qed
qed

lemma selectLatest_selected:
  "selected b now i n latest \<Longrightarrow> i \<le> n \<Longrightarrow> selected b now 0 n (selectLatest b now i latest)"
proof (induction i arbitrary: latest)
  case 0
  then show ?case by simp
next
  case (Suc i)
  from Suc.prems(2) have "i < n" by simp
  from selected_step [OF Suc.prems(1) this] Suc.IH Suc.prems(2) show ?case
    by (simp add: Let_def)
qed

lemma selectLatest_spec: "selected b now 0 (length b) (selectLatest b now (length b) None)"
  by (rule selectLatest_selected) (auto simp: selected_def)

lemma selectLatest_idle:
  assumes "\<forall>inp \<in> set b. \<not> eligible now inp"
  shows "selectLatest b now (length b) None = None"
proof (cases "selectLatest b now (length b) None")
  case None
  then show ?thesis .
next
  case (Some k)
  with selectLatest_spec [of b now] have "k < length b" "eligible now (b ! k)"
    by (simp_all add: selected_def)
  with assms show ?thesis by (metis nth_mem)
qed

lemma processPlayer_idle:
  assumes "\<forall>inp \<in> set (bufferOf bufs (p_id player)). \<not> eligible now inp"
  shows "fst (processPlayer gameState deltaTime now player bufs) = player"
  using selectLatest_idle [OF assms] by (simp add: processPlayer_def Let_def)

lemma eligible_markedBuffer:
  assumes "inp \<in> set (markedBuffer b now)" and "eligible now inp"
  shows "inp \<in> set b"
proof (cases "selectLatest b now (length b) None")
  case None
  with assms show ?thesis by (simp add: markedBuffer_def)
next
  case (Some k)
  with assms(1) obtain i where i: "i < length b" "inp = markProcessed b now k ! i"
    by (auto simp: markedBuffer_def in_set_conv_nth length_markProcessed)
  with assms(2) have "inp = b ! i"
    by (auto simp: nth_markProcessed eligible_def split: if_splits)
  with i(1) show ?thesis by (metis nth_mem)
qed

lemma processPlayer_other:
  "q \<noteq> p_id player \<Longrightarrow> snd (processPlayer gameState deltaTime now player bufs) q = bufs q"
  by (simp add: processPlayer_def Let_def)

lemma processPlayer_own:
  "snd (processPlayer gameState deltaTime now player bufs) (p_id player) =
     Some (filter (\<lambda>inp. \<not> processed inp \<or>
                     jsLt (jsMinus (Num (real_of_int now)) (timestamp inp)) (Num 1000))
             (markedBuffer (bufferOf bufs (p_id player)) now))"
  by (simp add: processPlayer_def Let_def)

lemma processPlayer_keeps_idle:
  assumes "\<forall>inp \<in> set (bufferOf bufs q). \<not> eligible now inp"
  shows "\<forall>inp \<in> set (bufferOf (snd (processPlayer gameState deltaTime now player bufs)) q).
           \<not> eligible now inp"
proof (cases "q = p_id player")
  case False
  with assms show ?thesis
    by (simp add: bufferOf_def processPlayer_other)
next
  case True
  show ?thesis
  proof
    fix inp
    assume "inp \<in> set (bufferOf (snd (processPlayer gameState deltaTime now player bufs)) q)"
    then have m: "inp \<in> set (markedBuffer (bufferOf bufs q) now)"
      using True by (simp add: bufferOf_def processPlayer_own)
    show "\<not> eligible now inp"
    proof
      assume "eligible now inp"
      with m eligible_markedBuffer have "inp \<in> set (bufferOf bufs q)" by blast
      with assms \<open>eligible now inp\<close> show False by blast
    qed
  qed
qed

lemma length_processPlayers:
  "length (fst (processPlayers gameState deltaTime now ps bufs)) = length ps"
  by (induction ps arbitrary: bufs) (simp_all add: split_beta Let_def)

lemma processPlayers_idle:
  assumes "i < length ps"
    and "\<forall>inp \<in> set (bufferOf bufs (p_id (ps ! i))). \<not> eligible now inp"
  shows "fst (processPlayers gameState deltaTime now ps bufs) ! i = ps ! i"
  using assms
proof (induction ps arbitrary: bufs i)
  case Nil
  then show ?case by simp
next
  case (Cons p ps)
  show ?case
  proof (cases i)
    case 0
    with Cons.prems(2) show ?thesis
      by (simp add: split_beta Let_def processPlayer_idle)
  next
    case (Suc j)
    with Cons.prems have j: "j < length ps"
      and idle: "\<forall>inp \<in> set (bufferOf bufs (p_id (ps ! j))). \<not> eligible now inp"
      by simp_all
    from Cons.IH [OF j processPlayer_keeps_idle [OF idle]] Suc show ?thesis
      by (simp add: split_beta Let_def)
  qed
qed

lemma tsOrdered_nth:
  "tsOrdered b \<Longrightarrow> i < j \<Longrightarrow> j < length b \<Longrightarrow> jsLe (timestamp (b ! i)) (timestamp (b ! j))"
  using sorted_wrt_nth_less [of "\<lambda>a c. jsLe (timestamp a) (timestamp c)" b i j]
  by (simp add: tsOrdered_def)

lemma ordered_selected_last:
  assumes srt: "tsOrdered b"
    and sel: "selected b now 0 (length b) (Some k)"
    and m: "m < length b" "eligible now (b ! m)"
  shows "m \<le> k"
proof (rule ccontr)
  assume "\<not> m \<le> k"
  then have km: "k < m" by simp
  from sel m have le: "jsLe (timestamp (b ! m)) (timestamp (b ! k))"
    and tie: "timestamp (b ! m) = timestamp (b ! k) \<longrightarrow> m \<le> k"
    by (simp_all add: selected_def)
  from tsOrdered_nth [OF srt km m(1)] have "jsLe (timestamp (b ! k)) (timestamp (b ! m))" .
  with le have "timestamp (b ! m) = timestamp (b ! k)"
    by (cases "timestamp (b ! m)"; cases "timestamp (b ! k)") simp_all
  with tie km show False by simp
qed

lemma markedBuffer_nth_processed:
  assumes srt: "tsOrdered b"
    and m: "m < length b" "jsLe (timestamp (b ! m)) (Num (real_of_int now))"
    and some: "\<exists>j < length b. eligible now (b ! j)"
  shows "processed (markedBuffer b now ! m)"
proof (cases "selectLatest b now (length b) None")
  case None
  with selectLatest_spec [of b now] some show ?thesis
    by (auto simp: selected_def)
next
  case (Some k)
  with selectLatest_spec [of b now] have sel: "selected b now 0 (length b) (Some k)"
    by simp
  show ?thesis
  proof (cases "processed (b ! m)")
    case True
    with m(1) Some show ?thesis
      by (simp add: markedBuffer_def nth_markProcessed)
  next
    case False
    with m(2) have "eligible now (b ! m)" by (simp add: eligible_def)
    from ordered_selected_last [OF srt sel m(1) this] m Some show ?thesis
      by (auto simp: markedBuffer_def nth_markProcessed)
  qed
qed

lemma markedBuffer_none_eligible:
  assumes "tsOrdered b" and "inp \<in> set (markedBuffer b now)"
  shows "\<not> eligible now inp"
proof
  assume el: "eligible now inp"
  from assms(2) obtain m where m: "m < length b" "inp = markedBuffer b now ! m"
    by (auto simp: in_set_conv_nth length_markedBuffer)
  from el assms(2) have "inp \<in> set b" by (rule eligible_markedBuffer [rotated])
  then obtain j where j: "j < length b" "b ! j = inp" by (auto simp: in_set_conv_nth)
  with el have some: "\<exists>j < length b. eligible now (b ! j)" by auto
  have "timestamp (markedBuffer b now ! m) = timestamp (b ! m)"
    using m(1) map_timestamp_markedBuffer [of b now]
    by (metis length_markedBuffer nth_map)
  with el m have "jsLe (timestamp (b ! m)) (Num (real_of_int now))" by (simp add: eligible_def)
  from markedBuffer_nth_processed [OF assms(1) m(1) this some] m(2) el show False
    by (simp add: eligible_def)
qed

lemma processPlayer_cong:
  assumes "bufs (p_id player) = bufs' (p_id player)"
  shows "fst (processPlayer gameState deltaTime now player bufs) =
           fst (processPlayer gameState deltaTime now player bufs')"
    and "snd (processPlayer gameState deltaTime now player bufs) (p_id player) =
           snd (processPlayer gameState deltaTime now player bufs') (p_id player)"
  using assms by (simp_all add: processPlayer_def Let_def bufferOf_def)

lemma processPlayers_other:
  "q \<notin> p_id ` set ps \<Longrightarrow> snd (processPlayers gameState deltaTime now ps bufs) q = bufs q"
  by (induction ps arbitrary: bufs) (simp_all add: split_beta Let_def processPlayer_other)

lemma processPlayers_nth:
  assumes "distinct (map p_id ps)" and "i < length ps"
  shows "fst (processPlayers gameState deltaTime now ps bufs) ! i =
           fst (processPlayer gameState deltaTime now (ps ! i) bufs) \<and>
         snd (processPlayers gameState deltaTime now ps bufs) (p_id (ps ! i)) =
           snd (processPlayer gameState deltaTime now (ps ! i) bufs) (p_id (ps ! i))"
  using assms
proof (induction ps arbitrary: bufs i)
  case Nil
  then show ?case by simp
next
  case (Cons p ps)
  define bufs1 where "bufs1 = snd (processPlayer gameState deltaTime now p bufs)"
  show ?case
  proof (cases i)
    case 0
    from Cons.prems(1) have "p_id p \<notin> p_id ` set ps" by simp
    from processPlayers_other [OF this] 0 show ?thesis
      by (simp add: split_beta Let_def)
  next
    case (Suc j)
    with Cons.prems have j: "j < length ps" and d: "distinct (map p_id ps)"
      and notin: "p_id p \<notin> p_id ` set ps"
      by auto
    from j have "p_id (ps ! j) \<in> p_id ` set ps" by simp
    with notin have ne: "p_id (ps ! j) \<noteq> p_id p" by metis
    have same: "bufs1 (p_id (ps ! j)) = bufs (p_id (ps ! j))"
      using ne by (simp add: bufs1_def processPlayer_other)
    from Cons.IH [OF d j, of bufs1]
      processPlayer_cong [of bufs1 "ps ! j" bufs gameState deltaTime now, OF same]
      Suc show ?thesis
      by (simp add: split_beta Let_def bufs1_def)
  qed
qed

lemma applyMovement_cooldown [simp]:
  "p_portalCooldown (applyMovement dx dy deltaTime m player) = p_portalCooldown player"
  by (simp add: applyMovement_def Let_def)

lemma applyMovement_immunity [simp]:
  "p_immunityActive (applyMovement dx dy deltaTime m player) = p_immunityActive player"
  "p_immunityEndTime (applyMovement dx dy deltaTime m player) = p_immunityEndTime player"
  by (simp_all add: applyMovement_def Let_def)

lemma applyInput_cooldown:
  "p_portalCooldown (applyInputToPlayer player inp deltaTime gameState) =
     (if p_portalCooldown player > 0 then p_portalCooldown player - deltaTime
      else p_portalCooldown player)"
  by (simp add: applyInputToPlayer_def split_beta updateImmunity_def updatePortalCooldown_def
      updateTrail_def updateEnergy_def Let_def)

lemma applyInput_immunity:
  "p_immunityActive (applyInputToPlayer player inp deltaTime gameState) =
     (p_immunityActive player \<and> gs_gameTime gameState < p_immunityEndTime player)"
  by (auto simp add: applyInputToPlayer_def split_beta updateImmunity_def updatePortalCooldown_def
      updateTrail_def updateEnergy_def Let_def)

text \<open>
  What claim C2 says holds of a buffer that is in timestamp order, for the first player of
  an id: with unprocessed inputs at \<open>m1\<close> and \<open>m2\<close> of timestamps \<open>t1 < t2 \<le> currentTime\<close>,
  \<open>t2\<close> the greatest such, the pass applies one input, an unprocessed one of timestamp
  \<open>t2\<close>, marks both processed, and leaves no input of a timestamp up to \<open>currentTime\<close>
  unprocessed.
\<close>

lemma latest_input_wins_ordered:
  assumes srt: "tsOrdered b"
    and ids: "distinct (map p_id (gs_players gameState))"
    and i: "i < length (gs_players gameState)"
    and b: "bufs (p_id (gs_players gameState ! i)) = Some b"
    and m1: "m1 < length b" "\<not> processed (b ! m1)"
    and m2: "m2 < length b" "\<not> processed (b ! m2)"
    and lt: "jsLt (timestamp (b ! m1)) (timestamp (b ! m2))"
      "jsLe (timestamp (b ! m2)) (Num (real_of_int currentTime))"
    and greatest: "\<forall>m < length b. eligible currentTime (b ! m) \<longrightarrow>
                     jsLe (timestamp (b ! m)) (timestamp (b ! m2))"
  shows "\<exists>k < length b.
           timestamp (b ! k) = timestamp (b ! m2) \<and> eligible currentTime (b ! k) \<and>
           gs_players (fst (processPlayerInputs gameState deltaTime currentTime bufs)) ! i =
             applyInputToPlayer (gs_players gameState ! i) (b ! k) deltaTime gameState \<and>
           processed (markedBuffer b currentTime ! m1) \<and>
           processed (markedBuffer b currentTime ! m2) \<and>
           (\<forall>inp \<in> set (markedBuffer b currentTime). \<not> eligible currentTime inp)"
proof -
  define p where "p = gs_players gameState ! i"
  have bo: "bufferOf bufs (p_id p) = b"
    using b by (simp add: bufferOf_def p_def)
  have el2: "eligible currentTime (b ! m2)"
    using m2 lt by (simp add: eligible_def)
  have le1: "jsLe (timestamp (b ! m1)) (Num (real_of_int currentTime))"
    using lt by (cases "timestamp (b ! m1)"; cases "timestamp (b ! m2)") simp_all
  obtain k where k: "selectLatest b currentTime (length b) None = Some k"
  proof (cases "selectLatest b currentTime (length b) None")
    case None
    with selectLatest_spec [of b currentTime] m2(1) el2 show ?thesis
      by (auto simp: selected_def)
  next
    case (Some k)
    with that show ?thesis .
  qed
  with selectLatest_spec [of b currentTime]
  have sel: "selected b currentTime 0 (length b) (Some k)" by simp
  then have kl: "k < length b" and elk: "eligible currentTime (b ! k)"
    and a: "jsLe (timestamp (b ! m2)) (timestamp (b ! k))"
    using m2(1) el2 by (simp_all add: selected_def)
  from greatest kl elk have "jsLe (timestamp (b ! k)) (timestamp (b ! m2))" by simp
  with a have ts: "timestamp (b ! k) = timestamp (b ! m2)"
    by (cases "timestamp (b ! k)"; cases "timestamp (b ! m2)") simp_all
  have some: "\<exists>j < length b. eligible currentTime (b ! j)"
    using m2(1) el2 by blast
  have p1: "processed (markedBuffer b currentTime ! m1)"
    by (rule markedBuffer_nth_processed [OF srt m1(1) le1 some])
  have p2: "processed (markedBuffer b currentTime ! m2)"
    by (rule markedBuffer_nth_processed [OF srt m2(1) lt(2) some])
  have nth: "gs_players (fst (processPlayerInputs gameState deltaTime currentTime bufs)) ! i =
               fst (processPlayer gameState deltaTime currentTime p bufs)"
    using processPlayers_nth [OF ids i, of gameState deltaTime currentTime bufs]
    by (simp_all add: processPlayerInputs_def split_beta p_def)
  have applied: "fst (processPlayer gameState deltaTime currentTime p bufs) =
                   applyInputToPlayer p (b ! k) deltaTime gameState"
    using k by (simp add: processPlayer_def Let_def bo)
  have rest: "\<forall>inp \<in> set (markedBuffer b currentTime). \<not> eligible currentTime inp"
    using markedBuffer_none_eligible [OF srt] by blast
  from kl ts elk nth applied p1 p2 rest show ?thesis
    unfolding p_def [symmetric] by auto
qed

lemma applyMovement_velX [simp]:
  "p_velX (applyMovement dx dy deltaTime m player) = dx * p_speed player"
  "p_speed (applyMovement dx dy deltaTime m player) = p_speed player"
  by (simp_all add: applyMovement_def Let_def)

lemma applyInput_velX:
  "p_velX (applyInputToPlayer player inp deltaTime gameState) =
     fst (inputDirection inp) * p_speed player"
  "p_speed (applyInputToPlayer player inp deltaTime gameState) = p_speed player"
  by (simp_all add: applyInputToPlayer_def split_beta updateImmunity_def updatePortalCooldown_def
      updateTrail_def updateEnergy_def Let_def)

lemma applyInput_id:
  "p_id (applyInputToPlayer player inp deltaTime gameState) = p_id player"
  by (simp add: applyInputToPlayer_def split_beta updateImmunity_def updatePortalCooldown_def
      updateTrail_def updateEnergy_def applyMovement_def Let_def)

lemma inputDirection_examples:
  "inputDirection (in1\<lparr>timestamp := t\<rparr>) = (0, 0)"
  "inputDirection (inRight\<lparr>timestamp := t\<rparr>) = (1, 0)"
  by (simp_all add: inputDirection_def in1_def inRight_def noKeys_def Let_def)

text \<open>
  Claim C2 fails in the code on the buffer that the pushes with the timestamps \<^verbatim>\<open>5\<close>,
  \<^verbatim>\<open>"x"\<close> and \<^verbatim>\<open>3\<close> leave. In the tick at time 10 both numeric inputs are unprocessed and
  not in the future. The selection loop takes the input of timestamp 5, at index 0, and
  the loop that marks the older inputs runs over the indices before 0, that is over
  none: the input of timestamp 3, at index 2, stays unprocessed. The tick at time 11
  selects it and applies it to the player, who was at rest after the first tick and now
  moves to the right at full speed.
\<close>

theorem superseded_input_applied_later:
  "bufferOf bufsMixed ''a'' =
     [in1\<lparr>timestamp := Num 5\<rparr>, in1\<lparr>timestamp := NaN\<rparr>, inRight\<lparr>timestamp := Num 3\<rparr>] \<and>
   processPlayerInputs gsEx (1 / 20) 10 bufsMixed =
     (gsEx\<lparr>gs_players := [applyInputToPlayer playerEx (in1\<lparr>timestamp := Num 5\<rparr>) (1 / 20) gsEx]\<rparr>,
      bufsMixed(''a'' \<mapsto>
        [in1\<lparr>timestamp := Num 5, processed := True\<rparr>, in1\<lparr>timestamp := NaN\<rparr>,
         inRight\<lparr>timestamp := Num 3\<rparr>])) \<and>
   \<not> processed (inRight\<lparr>timestamp := Num 3\<rparr>) \<and>
   gs_players
     (fst (processPlayerInputs
             (fst (processPlayerInputs gsEx (1 / 20) 10 bufsMixed)) (1 / 20) 11
             (snd (processPlayerInputs gsEx (1 / 20) 10 bufsMixed)))) =
     [applyInputToPlayer
        (applyInputToPlayer playerEx (in1\<lparr>timestamp := Num 5\<rparr>) (1 / 20) gsEx)
        (inRight\<lparr>timestamp := Num 3\<rparr>) (1 / 20)
        (fst (processPlayerInputs gsEx (1 / 20) 10 bufsMixed))] \<and>
   p_velX (applyInputToPlayer playerEx (in1\<lparr>timestamp := Num 5\<rparr>) (1 / 20) gsEx) = 0 \<and>
   p_velX (applyInputToPlayer
             (applyInputToPlayer playerEx (in1\<lparr>timestamp := Num 5\<rparr>) (1 / 20) gsEx)
             (inRight\<lparr>timestamp := Num 3\<rparr>) (1 / 20)
             (fst (processPlayerInputs gsEx (1 / 20) 10 bufsMixed))) = 300"
proof -
  let ?b = "[in1\<lparr>timestamp := Num 5\<rparr>, in1\<lparr>timestamp := NaN\<rparr>, inRight\<lparr>timestamp := Num 3\<rparr>]"
  let ?b' = "[in1\<lparr>timestamp := Num 5, processed := True\<rparr>, in1\<lparr>timestamp := NaN\<rparr>,
              inRight\<lparr>timestamp := Num 3\<rparr>]"
  let ?p = "applyInputToPlayer playerEx (in1\<lparr>timestamp := Num 5\<rparr>) (1 / 20) gsEx"
  let ?g = "gsEx\<lparr>gs_players := [?p]\<rparr>"
  have pl: "gs_players gsEx = [playerEx]"
    by (simp add: gsEx_def)
  have pid: "p_id playerEx = ''a''"
    by (simp add: playerEx_def)
  have s1: "selectLatest ?b 10 (length ?b) None = Some 0"
    by (simp add: in1_def inRight_def eval_nat_numeral)
  have m1: "markedBuffer ?b 10 = ?b'"
    by (simp add: markedBuffer_def s1 markProcessed_def in1_def inRight_def upt_rec)
  have f1: "filter (\<lambda>inp. \<not> processed inp \<or>
                jsLt (jsMinus (Num (real_of_int 10)) (timestamp inp)) (Num 1000)) ?b' = ?b'"
    by (simp add: in1_def inRight_def)
  have pp1: "processPlayer gsEx (1 / 20) 10 playerEx bufsMixed = (?p, bufsMixed(''a'' \<mapsto> ?b'))"
    by (simp only: processPlayer_def Let_def pid bufsMixed_a s1 option.case nth_Cons_0 m1 f1)
  have first: "processPlayerInputs gsEx (1 / 20) 10 bufsMixed = (?g, bufsMixed(''a'' \<mapsto> ?b'))"
    by (simp add: processPlayerInputs_def pl pp1)
  have id: "p_id ?p = ''a''"
    by (simp add: applyInput_id pid)
  have s2: "selectLatest ?b' 11 (length ?b') None = Some 2"
    by (simp add: in1_def inRight_def eval_nat_numeral)
  have b2: "bufferOf (bufsMixed(''a'' \<mapsto> ?b')) ''a'' = ?b'"
    by (simp add: bufferOf_def)
  have pp2: "fst (processPlayer ?g (1 / 20) 11 ?p (bufsMixed(''a'' \<mapsto> ?b'))) =
      applyInputToPlayer ?p (inRight\<lparr>timestamp := Num 3\<rparr>) (1 / 20) ?g"
    by (simp only: processPlayer_def Let_def id b2 s2 option.case fst_conv) simp
  have second: "gs_players (fst (processPlayerInputs ?g (1 / 20) 11 (bufsMixed(''a'' \<mapsto> ?b')))) =
      [applyInputToPlayer ?p (inRight\<lparr>timestamp := Num 3\<rparr>) (1 / 20) ?g]"
    using pp2 by (simp add: processPlayerInputs_def split_beta)
  have v: "p_velX ?p = 0"
    "p_velX (applyInputToPlayer ?p (inRight\<lparr>timestamp := Num 3\<rparr>) (1 / 20) g) = 300" for g
    by (simp_all add: applyInput_velX inputDirection_examples playerEx_def)
  have np: "\<not> processed (inRight\<lparr>timestamp := Num 3\<rparr>)"
    by (simp add: inRight_def)
  from first second v np show ?thesis
    by (simp only: bufsMixed_a fst_conv snd_conv simp_thms)
qed

text \<open>
  Claim C10. A player with no unprocessed buffered input of timestamp up to the tick's
  current time comes out of \<^verbatim>\<open>processPlayerInputs\<close> as the same record: position,
  velocity, energy, trail, portal cooldown and the immunity fields are unchanged. The
  portal cooldown is decremented and the immunity expired by \<^verbatim>\<open>applyInputToPlayer\<close> only
  (lemmas \<open>applyInput_cooldown\<close> and \<open>applyInput_immunity\<close>).
\<close>

theorem idle_player_unchanged:
  assumes "i < length (gs_players gameState)"
    and "\<forall>inp \<in> set (bufferOf bufs (p_id (gs_players gameState ! i))). \<not> eligible currentTime inp"
  shows "gs_players (fst (processPlayerInputs gameState deltaTime currentTime bufs)) ! i =
           gs_players gameState ! i"
  using processPlayers_idle [OF assms] by (simp add: processPlayerInputs_def split_beta)


theorem idle_player_unchanged_witness:
  "bufferOf bufsLate ''a'' = [in1\<lparr>timestamp := Num 100\<rparr>] \<and>
   \<not> eligible 50 (in1\<lparr>timestamp := Num 100\<rparr>) \<and>
   gs_players (fst (processPlayerInputs gsEx (1 / 20) 50 bufsLate)) ! 0 = playerEx \<and>
   p_portalCooldown playerEx = 3 / 2 \<and> p_immunityActive playerEx \<and>
   p_immunityEndTime playerEx \<le> gs_gameTime gsEx"
proof -
  have b: "bufferOf bufsLate ''a'' = [in1\<lparr>timestamp := Num 100\<rparr>]"
    by (simp add: bufsLate_def bufferPlayerInput_def bufferOf_def in1_def jsSort_def)
  have e: "\<not> eligible 50 (in1\<lparr>timestamp := Num 100\<rparr>)"
    by (simp add: eligible_def in1_def)
  have i: "0 < length (gs_players gsEx)"
    by (simp add: gsEx_def)
  have idle: "\<forall>inp \<in> set (bufferOf bufsLate (p_id (gs_players gsEx ! 0))). \<not> eligible 50 inp"
    using b e by (simp add: gsEx_def playerEx_def)
  from idle_player_unchanged [OF i idle, of "1 / 20"]
  have "gs_players (fst (processPlayerInputs gsEx (1 / 20) 50 bufsLate)) ! 0 = playerEx"
    by (simp add: gsEx_def)
  with b e show ?thesis
    by (simp add: playerEx_def gsEx_def)
qed

subsection \<open>Properties of the collision test\<close>

lemma checkCollision_iff:
  "checkCollision x y width height m isPlayer \<longleftrightarrow>
     (\<exists>gx gy. examined x y gx gy \<and> tileOverlap x y width height gx gy \<and>
        solid isPlayer (tileAt m gx gy))"
  unfolding checkCollision_def Let_def list_ex_iff examined_def tileOverlap_def
  by (auto simp: Bex_def)

text \<open>
  Claim C4. Among the tiles the test examines, a sidewalk (building) tile or a water tile
  that the box meets makes the test report a collision for players and for non-players;
  a lava tile that the box meets does so for non-players. A collision reported for a
  player comes from a sidewalk or water tile, never from lava alone; a collision reported
  for a non-player comes from a sidewalk, water or lava tile. Road and grass tiles cause
  no collision for anyone.
\<close>

theorem solidity_rules:
  "(examined x y gx gy \<and> tileOverlap x y width height gx gy \<and>
      (tileAt m gx gy = 1 \<or> tileAt m gx gy = 3) \<longrightarrow>
        checkCollision x y width height m isPlayer) \<and>
   (examined x y gx gy \<and> tileOverlap x y width height gx gy \<and> tileAt m gx gy = 4 \<longrightarrow>
      checkCollision x y width height m False) \<and>
   (checkCollision x y width height m True \<longrightarrow>
      (\<exists>tx ty. examined x y tx ty \<and> tileOverlap x y width height tx ty \<and>
         (tileAt m tx ty = 1 \<or> tileAt m tx ty = 3))) \<and>
   (checkCollision x y width height m False \<longrightarrow>
      (\<exists>tx ty. examined x y tx ty \<and> tileOverlap x y width height tx ty \<and>
         (tileAt m tx ty = 1 \<or> tileAt m tx ty = 3 \<or> tileAt m tx ty = 4)))"
  unfolding checkCollision_iff solid_def by blast

theorem solidity_rules_witness:
  "examined 32 100 0 1 \<and> tileOverlap 32 100 24 24 0 1 \<and> tileAt mapLava 0 1 = 4 \<and>
   checkCollision 32 100 24 24 mapLava False \<and> \<not> checkCollision 32 100 24 24 mapLava True"
proof -
  have e: "examined 32 100 0 1"
    by (simp add: examined_def TILE_SIZE_def MAP_WIDTH_def MAP_HEIGHT_def)
  have o: "tileOverlap 32 100 24 24 0 1"
    by (simp add: tileOverlap_def TILE_SIZE_def)
  have t: "tileAt mapLava 0 1 = 4"
    by code_simp
  from solidity_rules [of 32 100 0 1 24 24 mapLava] e o t
  have c: "checkCollision 32 100 24 24 mapLava False"
    by blast
  have n: "\<not> checkCollision 32 100 24 24 mapLava True"
    by code_simp
  from e o t c n show ?thesis by blast
qed

subsection \<open>Properties of the map generator\<close>

lemma fold_invariant:
  assumes "\<And>x s. I s \<Longrightarrow> I (f x s)" and "I s"
  shows "I (fold f xs s)"
  using assms(2) by (induction xs arbitrary: s) (simp_all add: assms(1))

lemma fold_establish:
  assumes mem: "x \<in> set xs"
    and est: "\<And>s. I s \<Longrightarrow> Q (f x s)"
    and keepQ: "\<And>x' s. I s \<Longrightarrow> Q s \<Longrightarrow> Q (f x' s)"
    and keepI: "\<And>x' s. I s \<Longrightarrow> I (f x' s)"
    and init: "I s"
  shows "Q (fold f xs s)"
  using mem init
proof (induction xs arbitrary: s)
  case Nil
  then show ?case by simp
next
  case (Cons a xs)
  show ?case
  proof (cases "a = x")
    case True
    have "I (f x s) \<and> Q (f x s)"
      using Cons.prems(2) est keepI by simp
    then have "I (fold f xs (f x s)) \<and> Q (fold f xs (f x s))"
      by (rule fold_invariant [where I = "\<lambda>s. I s \<and> Q s", rotated]) (simp add: keepI keepQ)
    with True show ?thesis by simp
  next
    case False
    with Cons.prems(1) have "x \<in> set xs" by simp
    from Cons.IH [OF this keepI [OF Cons.prems(2)]] show ?thesis by simp
  qed
qed

lemma nth_setTile:
  "y < length tiles \<Longrightarrow> x < length (tiles ! y) \<Longrightarrow> setTile tiles y x t ! y ! x = t"
  by (simp add: setTile_def)

lemma nth_setTile_other:
  "(y', x') \<noteq> (y, x) \<Longrightarrow> setTile tiles y x t ! y' ! x' = tiles ! y' ! x'"
  by (cases "y' = y"; cases "y < length tiles") (auto simp: setTile_def list_update_beyond)

lemma nth_setTile_same:
  "tiles ! y ! x = t \<Longrightarrow> setTile tiles y x t ! y ! x = t"
  by (cases "y < length tiles"; cases "x < length (tiles ! y)")
     (auto simp: setTile_def list_update_beyond)

lemma gridOk_setTile: "gridOk tiles \<Longrightarrow> gridOk (setTile tiles y x t)"
proof -
  assume g: "gridOk tiles"
  show ?thesis
  proof (cases "y < length tiles")
    case False
    with g show ?thesis by (simp add: setTile_def list_update_beyond)
  next
    case True
    with g have "length ((tiles ! y)[x := t]) = nat MAP_WIDTH"
      by (simp add: gridOk_def)
    moreover have "set (tiles[y := (tiles ! y)[x := t]]) \<subseteq> insert ((tiles ! y)[x := t]) (set tiles)"
      by (rule set_update_subset_insert)
    ultimately show ?thesis
      using g unfolding gridOk_def setTile_def by auto
  qed
qed

lemma gridOk_nth: "gridOk tiles \<Longrightarrow> y < nat MAP_HEIGHT \<Longrightarrow> length (tiles ! y) = nat MAP_WIDTH"
  by (simp add: gridOk_def)

lemma gridOk_lavaCell: "gridOk tiles \<Longrightarrow> gridOk (lavaCell y x tiles)"
  by (simp add: lavaCell_def gridOk_setTile)

lemma lavaCell_keeps:
  "tiles ! y ! x = 4 \<Longrightarrow> lavaCell y' x' tiles ! y ! x = 4"
  by (cases "(y, x) = (y', x')") (auto simp: lavaCell_def nth_setTile_other nth_setTile_same)

lemma lavaCell_sets:
  assumes "gridOk tiles" "y < nat MAP_HEIGHT" "x < nat MAP_WIDTH" "perimeter x y"
  shows "lavaCell y x tiles ! y ! x = 4"
  using assms by (simp add: lavaCell_def perimeter_def nth_setTile gridOk_def)

lemma lavaRow_sets:
  assumes "gridOk tiles" "y < nat MAP_HEIGHT" "x < nat MAP_WIDTH" "perimeter x y"
  shows "fold (lavaCell y) [0 ..< nat MAP_WIDTH] tiles ! y ! x = 4"
proof (rule fold_establish [where I = gridOk and x = x])
  show "x \<in> set [0 ..< nat MAP_WIDTH]" using assms(3) by simp
  show "\<And>s. gridOk s \<Longrightarrow> lavaCell y x s ! y ! x = 4"
    using assms by (simp add: lavaCell_sets)
  show "\<And>x' s. gridOk s \<Longrightarrow> s ! y ! x = 4 \<Longrightarrow> lavaCell y x' s ! y ! x = 4"
    by (simp add: lavaCell_keeps)
  show "\<And>x' s. gridOk s \<Longrightarrow> gridOk (lavaCell y x' s)"
    by (simp add: gridOk_lavaCell)
  show "gridOk tiles" by fact
qed

lemma gridOk_lavaRow: "gridOk tiles \<Longrightarrow> gridOk (fold (lavaCell y) xs tiles)"
  by (rule fold_invariant) (simp_all add: gridOk_lavaCell)

lemma lavaRow_keeps: "tiles ! y ! x = 4 \<Longrightarrow> fold (lavaCell y') xs tiles ! y ! x = 4"
  by (rule fold_invariant [where I = "\<lambda>t. t ! y ! x = 4"]) (simp_all add: lavaCell_keeps)

lemma gridOk_lavaPass: "gridOk tiles \<Longrightarrow> gridOk (lavaPass tiles)"
  unfolding lavaPass_def by (rule fold_invariant) (simp_all add: gridOk_lavaRow)

lemma lavaPass_sets:
  assumes "gridOk tiles" "y < nat MAP_HEIGHT" "x < nat MAP_WIDTH" "perimeter x y"
  shows "lavaPass tiles ! y ! x = 4"
  unfolding lavaPass_def
proof (rule fold_establish [where I = gridOk and x = y])
  show "y \<in> set [0 ..< nat MAP_HEIGHT]" using assms(2) by simp
  show "\<And>s. gridOk s \<Longrightarrow> fold (lavaCell y) [0 ..< nat MAP_WIDTH] s ! y ! x = 4"
    using assms by (simp add: lavaRow_sets)
  show "\<And>y' s. gridOk s \<Longrightarrow> s ! y ! x = 4 \<Longrightarrow>
          fold (lavaCell y') [0 ..< nat MAP_WIDTH] s ! y ! x = 4"
    by (simp add: lavaRow_keeps)
  show "\<And>y' s. gridOk s \<Longrightarrow> gridOk (fold (lavaCell y') [0 ..< nat MAP_WIDTH] s)"
    by (simp add: gridOk_lavaRow)
  show "gridOk tiles" by fact
qed

lemma gridOk_waterBlot: "gridOk tiles \<Longrightarrow> gridOk (waterBlot tiles y x)"
  unfolding waterBlot_def
  by (rule fold_invariant, rule fold_invariant) (simp_all add: gridOk_setTile)

lemma gridOk_terrainCell: "gridOk (fst st) \<Longrightarrow> gridOk (fst (terrainCell y x st))"
  by (simp add: terrainCell_def Let_def split_beta gridOk_setTile gridOk_waterBlot)

lemma gridOk_terrainPass: "gridOk (fst st) \<Longrightarrow> gridOk (fst (terrainPass st))"
  unfolding terrainPass_def
  by (rule fold_invariant [where I = "\<lambda>s. gridOk (fst s)"],
      rule fold_invariant [where I = "\<lambda>s. gridOk (fst s)"])
     (simp_all add: gridOk_terrainCell)

lemma gridOk_initial: "gridOk (replicate (nat MAP_HEIGHT) (replicate (nat MAP_WIDTH) 1))"
  by (simp add: gridOk_def)

lemma tiles_generateMap:
  "gm_tiles (generateMap seed) =
     lavaPass (fst (terrainPass (replicate (nat MAP_HEIGHT) (replicate (nat MAP_WIDTH) 1), seed)))"
  by (simp add: generateMap_def Let_def split_beta)

lemma gridOk_generateMap: "gridOk (gm_tiles (generateMap seed))"
  unfolding tiles_generateMap
  by (intro gridOk_lavaPass gridOk_terrainPass) (simp add: gridOk_def)

text \<open>
  Claim C6. For every seed, every tile on the perimeter of the generated 50 by 50 grid
  (\<open>x = 0\<close>, \<open>x = 49\<close>, \<open>y = 0\<close> or \<open>y = 49\<close>) is lava, whatever the loop before has put
  there.
\<close>

theorem perimeter_is_lava:
  assumes "x < 50" and "y < 50" and "x = 0 \<or> x = 49 \<or> y = 0 \<or> y = 49"
  shows "gm_tiles (generateMap seed) ! y ! x = 4"
  unfolding tiles_generateMap
proof (rule lavaPass_sets)
  show "gridOk (fst (terrainPass (replicate (nat MAP_HEIGHT) (replicate (nat MAP_WIDTH) 1), seed)))"
    by (intro gridOk_terrainPass) (simp add: gridOk_def)
  show "y < nat MAP_HEIGHT" "x < nat MAP_WIDTH"
    using assms by (simp_all add: MAP_HEIGHT_def MAP_WIDTH_def)
  show "perimeter x y"
    using assms(3) by (auto simp: perimeter_def MAP_HEIGHT_def MAP_WIDTH_def)
qed

theorem perimeter_is_lava_witness:
  "gm_tiles (generateMap 1) ! 0 ! 7 = 4 \<and> gm_tiles (generateMap 1) ! 49 ! 49 = 4 \<and>
   gm_tiles (generateMap 1790000000123) ! 12 ! 0 = 4"
  using perimeter_is_lava [of 7 0 1] perimeter_is_lava [of 49 49 1]
    perimeter_is_lava [of 0 12 1790000000123]
  by simp

lemma waterBlot_keeps_road:
  assumes "tiles ! y ! x = 0"
  shows "waterBlot tiles y' x' ! y ! x = 0"
  unfolding waterBlot_def
proof (rule fold_invariant [where I = "\<lambda>t. t ! y ! x = 0"], rule fold_invariant [where I = "\<lambda>t. t ! y ! x = 0"])
  fix ly lx :: int and ts :: "nat list list"
  assume z: "ts ! y ! x = 0"
  show "(if ly \<ge> 0 \<and> ly < MAP_HEIGHT \<and> lx \<ge> 0 \<and> lx < MAP_WIDTH
         then (if ts ! nat ly ! nat lx \<noteq> 0 then setTile ts (nat ly) (nat lx) 3 else ts)
         else ts) ! y ! x = 0"
  proof (cases "(y, x) = (nat ly, nat lx)")
    case True
    with z show ?thesis by auto
  next
    case False
    with z show ?thesis by (simp add: nth_setTile_other)
  qed
qed (simp_all add: assms)

lemma terrainCell_keeps_road:
  assumes "fst st ! y ! x = 0" and "roadCell x y"
  shows "fst (terrainCell y' x' st) ! y ! x = 0"
proof (cases "(y', x') = (y, x)")
  case True
  with assms show ?thesis
    by (simp add: terrainCell_def Let_def split_beta roadCell_def nth_setTile_same)
next
  case False
  then have ne: "(y, x) \<noteq> (y', x')" by auto
  show ?thesis
    using assms(1)
    by (simp add: terrainCell_def Let_def split_beta nth_setTile_other [OF ne] waterBlot_keeps_road)
qed

lemma terrainCell_sets_road:
  assumes "gridOk (fst st)" "y < nat MAP_HEIGHT" "x < nat MAP_WIDTH" "roadCell x y"
  shows "fst (terrainCell y x st) ! y ! x = 0"
  using assms by (simp add: terrainCell_def Let_def split_beta roadCell_def nth_setTile gridOk_def)

lemma terrainRow_sets_road:
  assumes "gridOk (fst st)" "y < nat MAP_HEIGHT" "x < nat MAP_WIDTH" "roadCell x y"
  shows "fst (fold (terrainCell y) [0 ..< nat MAP_WIDTH] st) ! y ! x = 0"
proof (rule fold_establish [where I = "\<lambda>s. gridOk (fst s)" and Q = "\<lambda>s. fst s ! y ! x = 0" and x = x])
  show "x \<in> set [0 ..< nat MAP_WIDTH]" using assms(3) by simp
  show "\<And>s. gridOk (fst s) \<Longrightarrow> fst (terrainCell y x s) ! y ! x = 0"
    using assms by (simp add: terrainCell_sets_road)
  show "\<And>x' s. gridOk (fst s) \<Longrightarrow> fst s ! y ! x = 0 \<Longrightarrow> fst (terrainCell y x' s) ! y ! x = 0"
    using assms(4) by (simp add: terrainCell_keeps_road)
  show "\<And>x' s. gridOk (fst s) \<Longrightarrow> gridOk (fst (terrainCell y x' s))"
    by (simp add: gridOk_terrainCell)
  show "gridOk (fst st)" by fact
qed

lemma gridOk_terrainRow: "gridOk (fst st) \<Longrightarrow> gridOk (fst (fold (terrainCell y) xs st))"
  by (rule fold_invariant [where I = "\<lambda>s. gridOk (fst s)"]) (simp_all add: gridOk_terrainCell)

lemma terrainRow_keeps_road:
  "fst st ! y ! x = 0 \<Longrightarrow> roadCell x y \<Longrightarrow> fst (fold (terrainCell y') xs st) ! y ! x = 0"
  by (rule fold_invariant [where I = "\<lambda>s. fst s ! y ! x = 0"])
     (simp_all add: terrainCell_keeps_road)

lemma terrainPass_sets_road:
  assumes "gridOk (fst st)" "y < nat MAP_HEIGHT" "x < nat MAP_WIDTH" "roadCell x y"
  shows "fst (terrainPass st) ! y ! x = 0"
  unfolding terrainPass_def
proof (rule fold_establish [where I = "\<lambda>s. gridOk (fst s)" and Q = "\<lambda>s. fst s ! y ! x = 0" and x = y])
  show "y \<in> set [0 ..< nat MAP_HEIGHT]" using assms(2) by simp
  show "\<And>s. gridOk (fst s) \<Longrightarrow> fst (fold (terrainCell y) [0 ..< nat MAP_WIDTH] s) ! y ! x = 0"
    using assms by (simp add: terrainRow_sets_road)
  show "\<And>y' s. gridOk (fst s) \<Longrightarrow> fst s ! y ! x = 0 \<Longrightarrow>
          fst (fold (terrainCell y') [0 ..< nat MAP_WIDTH] s) ! y ! x = 0"
    using assms(4) by (simp add: terrainRow_keeps_road)
  show "\<And>y' s. gridOk (fst s) \<Longrightarrow> gridOk (fst (fold (terrainCell y') [0 ..< nat MAP_WIDTH] s))"
    by (simp add: gridOk_terrainRow)
  show "gridOk (fst st)" by fact
qed

lemma lavaCell_inner: "\<not> perimeter x y \<Longrightarrow> lavaCell y' x' tiles ! y ! x = tiles ! y ! x"
  by (cases "(y, x) = (y', x')") (auto simp: lavaCell_def perimeter_def nth_setTile_other)

lemma lavaPass_inner:
  assumes "\<not> perimeter x y"
  shows "lavaPass tiles ! y ! x = tiles ! y ! x"
  unfolding lavaPass_def
  by (rule fold_invariant [where I = "\<lambda>t. t ! y ! x = tiles ! y ! x"],
      rule fold_invariant [where I = "\<lambda>t. t ! y ! x = tiles ! y ! x"])
     (simp_all add: lavaCell_inner [OF assms])

lemma roads_generateMap:
  assumes "0 < x" "x < 49" "0 < y" "y < 49" "roadCell x y"
  shows "gm_tiles (generateMap seed) ! y ! x = 0"
proof -
  have np: "\<not> perimeter x y"
    using assms by (simp add: perimeter_def MAP_WIDTH_def MAP_HEIGHT_def)
  have "fst (terrainPass (replicate (nat MAP_HEIGHT) (replicate (nat MAP_WIDTH) 1), seed)) ! y ! x = 0"
    using assms by (intro terrainPass_sets_road) (simp_all add: gridOk_def MAP_WIDTH_def MAP_HEIGHT_def)
  then show ?thesis
    by (simp add: tiles_generateMap lavaPass_inner [OF np])
qed

lemma road_4_4: "tileAt (generateMap seed) 4 4 = 0"
  using roads_generateMap [of 4 4 seed] by (simp add: tileAt_def roadCell_def)


lemma randomCell_rndEx: "randomCell (rndEx k) = 4"
  by (simp add: randomCell_def rndEx_def MAP_WIDTH_def)

lemma tileCentre_4: "tileCentre 4 = 288"
  by (simp add: tileCentre_def TILE_SIZE_def)

lemma spawnEnemyLoop_fail:
  assumes "hypot (288 - ax) (288 - ay) \<le> minDist"
  shows "spawnEnemyLoop rndEx m ax ay minDist n k = (None, k + 2 * n)"
  using assms
  by (induction n arbitrary: k) (simp_all add: Let_def randomCell_rndEx tileCentre_4)

lemma spawnEnemy_fail:
  assumes "hypot (288 - ax) (288 - ay) \<le> minDist"
  shows "spawnEnemy rndEx wall m ax ay minDist k = (None, k + 200)"
  by (simp add: spawnEnemy_def spawnEnemyLoop_fail [OF assms])

lemma initializeRoom_example:
  "initializeRoom rndEx wall [roomEx] ''ROOM01'' (Some 1) k = Some (Some gsStart, k + 613)"
proof -
  have room: "getRoom [roomEx] ''ROOM01'' = Some roomEx"
    by (simp add: getRoom_def roomEx_def)
  have players: "initializePlayers rndEx (generateMap 1) (r_players roomEx) k =
      ([newPlayer \<lparr>rp_id = ''a'', rp_name = ''Player_a'', rp_isHost = True, rp_coins = 0\<rparr> 288 288],
       k + 2)"
    by (simp add: roomEx_def eval_nat_numeral randomCell_rndEx tileCentre_4 road_4_4)
  have "hypot (288 - 288) (288 - 288) \<le> 800"
    by (simp add: hypot_def)
  note fail = spawnEnemy_fail [OF this]
  have enemies: "(firstEnemy rndEx wall (generateMap 1) 288 288 ^^ 3) ([], k + 2) = ([], k + 602)"
    by (simp add: eval_nat_numeral firstEnemy_def fail)
  have portals: "generatePortals rndEx (generateMap 1) (k + 602) =
      Some ([portalEx 0, portalEx 1, portalEx 2, portalEx 3], k + 610)"
    by (simp add: generatePortals_def generatePortalsLoop.simps randomCell_rndEx tileCentre_4
        road_4_4 portalEx_def)
  have r: "rndEx j = 1 / 16" for j
    by (simp add: rndEx_def)
  have px: "p_x (newPlayer rp sx sy) = sx" "p_y (newPlayer rp sx sy) = sy" for rp sx sy
    by (simp_all add: newPlayer_def)
  have "initializeRoom rndEx wall [roomEx] ''ROOM01'' (Some 1) k =
      Some (Some (newGameState ''ROOM01'' (generateMap 1)
        [newPlayer \<lparr>rp_id = ''a'', rp_name = ''Player_a'', rp_isHost = True, rp_coins = 0\<rparr> 288 288]
        [] initializeBoats [portalEx 0, portalEx 1, portalEx 2, portalEx 3]
        (1 / 16) (1 / 16) (1 / 16) 1), k + 610 + 3)"
    by (simp only: initializeRoom_def room option.case Let_def players prod.case list.case px
        enemies portals r)
  then show ?thesis
    by (simp add: gsStart_def)
qed

lemma initializeRoom_new:
  assumes "initializeRoom rnd wall rooms roomCode seedArg k = Some (Some gs0, k')"
  shows "\<exists>m players enemies boats portals j r2 r3 mapSeed.
           gs0 = newGameState roomCode m players enemies boats portals (rnd j) r2 r3 mapSeed"
  using assms
  by (simp add: initializeRoom_def Let_def split_beta split: option.splits) blast+

lemma initializeRoom_map:
  assumes "initializeRoom rnd wall rooms roomCode (Some seed) k = Some (Some gs0, k')"
  shows "gs_map gs0 = generateMap seed \<and> gs_mapSeed gs0 = seed"
  using assms
  by (auto simp: initializeRoom_def Let_def split_beta newGameState_def split: option.splits)

text \<open>
  Claim C5. The generator is a function of its seed: it reads no random number but those
  of the seeded generator, so the embedding has the seed as its only argument, and two
  runs on the same seed give the same tile grid, the same buildings and the same trees.
  Where the generator runs, in \<^verbatim>\<open>initializeRoom\<close>, the map is that of the seed whatever
  the room, the clock and the results of \<^verbatim>\<open>Math.random()\<close> are: two matches started with
  the same seed have the same map.
\<close>

theorem generation_deterministic:
  "(s1 = s2 \<longrightarrow>
      gm_tiles (generateMap s1) = gm_tiles (generateMap s2) \<and>
      gm_buildings (generateMap s1) = gm_buildings (generateMap s2) \<and>
      gm_trees (generateMap s1) = gm_trees (generateMap s2)) \<and>
   (initializeRoom rnd1 wall1 rooms1 code1 (Some seed) k1 = Some (Some g1, j1) \<and>
    initializeRoom rnd2 wall2 rooms2 code2 (Some seed) k2 = Some (Some g2, j2) \<longrightarrow>
      gs_map g1 = generateMap seed \<and> gs_map g2 = gs_map g1)"
proof (intro conjI impI)
  assume "initializeRoom rnd1 wall1 rooms1 code1 (Some seed) k1 = Some (Some g1, j1) \<and>
    initializeRoom rnd2 wall2 rooms2 code2 (Some seed) k2 = Some (Some g2, j2)"
  then have "gs_map g1 = generateMap seed" and "gs_map g2 = generateMap seed"
    using initializeRoom_map by blast+
  then show "gs_map g1 = generateMap seed" and "gs_map g2 = gs_map g1"
    by simp_all
qed simp_all

theorem generation_deterministic_witness:
  "gm_tiles (generateMap 7) = gm_tiles (generateMap 7) \<and>
   gm_buildings (generateMap 7) = gm_buildings (generateMap 7) \<and>
   gm_trees (generateMap 7) = gm_trees (generateMap 7) \<and>
   initializeRoom rndEx 0 [roomEx] ''ROOM01'' (Some 1) 0 = Some (Some gsStart, 613) \<and>
   initializeRoom rndEx 5 [roomEx, roomB] ''ROOM01'' (Some 1) 10 = Some (Some gsStart, 623) \<and>
   gs_map gsStart = generateMap 1"
proof -
  have a: "initializeRoom rndEx 0 [roomEx] ''ROOM01'' (Some 1) 0 = Some (Some gsStart, 613)"
    using initializeRoom_example [of 0 0] by simp
  have "getRoom [roomEx, roomB] ''ROOM01'' = getRoom [roomEx] ''ROOM01''"
    by (simp add: getRoom_def roomEx_def)
  then have "initializeRoom rndEx 5 [roomEx, roomB] ''ROOM01'' (Some 1) 10 =
      initializeRoom rndEx 5 [roomEx] ''ROOM01'' (Some 1) 10"
    by (simp add: initializeRoom_def)
  then have b: "initializeRoom rndEx 5 [roomEx, roomB] ''ROOM01'' (Some 1) 10 =
      Some (Some gsStart, 623)"
    using initializeRoom_example [of 5 10] by simp
  from generation_deterministic [of 7 7 rndEx 0 "[roomEx]" "''ROOM01''" 1 0 gsStart 613
      rndEx 5 "[roomEx, roomB]" "''ROOM01''" 10 gsStart 623] a b
  show ?thesis by simp
qed

subsection \<open>Properties of the collision pass\<close>

lemma hypot_less_iff: "0 \<le> c \<Longrightarrow> hypot a b < c \<longleftrightarrow> a * a + b * b < c * c"
proof -
  assume c: "0 \<le> c"
  have "hypot a b < c \<longleftrightarrow> sqrt (a * a + b * b) < sqrt (c * c)"
    using c by (simp add: hypot_def)
  also have "\<dots> \<longleftrightarrow> a * a + b * b < c * c"
    by (rule real_sqrt_less_iff)
  finally show ?thesis .
qed

lemma creditCoin_coins:
  "p_coinsCollected (creditCoin player) =
     (if p_coinsCollected player + 1 \<ge> 5
      then (if p_immunityInventory player < 3 then 0 else 4)
      else p_coinsCollected player + 1)"
  by (simp add: creditCoin_def Let_def COINS_FOR_IMMUNITY_def MAX_IMMUNITY_INVENTORY_def)

lemma creditCoin_inventory:
  "p_immunityInventory (creditCoin player) =
     (if p_coinsCollected player + 1 \<ge> 5 \<and> p_immunityInventory player < 3
      then p_immunityInventory player + 1 else p_immunityInventory player)"
  by (simp add: creditCoin_def Let_def COINS_FOR_IMMUNITY_def MAX_IMMUNITY_INVENTORY_def)

lemma creditCoin_position [simp]:
  "p_x (creditCoin player) = p_x player" "p_y (creditCoin player) = p_y player"
  by (simp_all add: creditCoin_def Let_def)

lemma coinInReach_creditCoin [simp]: "coinInReach (creditCoin player) = coinInReach player"
  by (rule ext) (simp add: coinInReach_def)

lemma collectCoin_reach:
  "coinInReach player c \<Longrightarrow> collectCoin player c = (creditCoin player, c\<lparr>c_collected := True\<rparr>)"
  by (simp add: collectCoin_def coinInReach_def)

lemma collectCoin_out: "\<not> coinInReach player c \<Longrightarrow> collectCoin player c = (player, c)"
  by (auto simp: collectCoin_def coinInReach_def)

lemma collectCoins_credit:
  "fst (collectCoins player coins) =
     (creditCoin ^^ length (filter (coinInReach player) coins)) player"
proof (induction coins arbitrary: player)
  case Nil
  show ?case by simp
next
  case (Cons c coins)
  show ?case
  proof (cases "coinInReach player c")
    case True
    then show ?thesis
      using Cons.IH [of "creditCoin player"]
      by (simp add: collectCoin_reach split_beta funpow_swap1)
  next
    case False
    then show ?thesis
      using Cons.IH [of player] by (simp add: collectCoin_out split_beta)
  qed
qed

lemma five_coins:
  assumes "p_coinsCollected player = 0" and "p_immunityInventory player = 0"
  shows "p_coinsCollected ((creditCoin ^^ 5) player) = 0"
    and "p_immunityInventory ((creditCoin ^^ 5) player) = 1"
  using assms by (simp_all add: eval_nat_numeral creditCoin_coins creditCoin_inventory)

lemma collectImmunities_counters:
  "p_coinsCollected (fst (collectImmunities gameTime player pickups)) = p_coinsCollected player \<and>
   p_immunityInventory (fst (collectImmunities gameTime player pickups)) = p_immunityInventory player"
proof (induction pickups arbitrary: player)
  case Nil
  show ?case by simp
next
  case (Cons pickup pickups)
  have "p_coinsCollected (fst (collectImmunity gameTime player pickup)) = p_coinsCollected player"
    "p_immunityInventory (fst (collectImmunity gameTime player pickup)) = p_immunityInventory player"
    by (simp_all add: collectImmunity_def)
  with Cons.IH [of "fst (collectImmunity gameTime player pickup)"] show ?case
    by (simp add: split_beta)
qed

lemma collectSinks_counters:
  "p_coinsCollected (fst (collectSinks player sinks)) = p_coinsCollected player \<and>
   p_immunityInventory (fst (collectSinks player sinks)) = p_immunityInventory player"
proof (induction sinks arbitrary: player)
  case Nil
  show ?case by simp
next
  case (Cons sink sinks)
  have "p_coinsCollected (fst (collectSink player sink)) = p_coinsCollected player"
    "p_immunityInventory (fst (collectSink player sink)) = p_immunityInventory player"
    by (simp_all add: collectSink_def)
  with Cons.IH [of "fst (collectSink player sink)"] show ?case
    by (simp add: split_beta)
qed

lemma portalStep_counters:
  "p_coinsCollected (fst (portalStep rnd portals i st)) = p_coinsCollected (fst st) \<and>
   p_immunityInventory (fst (portalStep rnd portals i st)) = p_immunityInventory (fst st)"
  by (simp add: portalStep_def split_beta Let_def)

lemma usePortals_counters:
  "p_coinsCollected (fst (usePortals rnd portals st)) = p_coinsCollected (fst st) \<and>
   p_immunityInventory (fst (usePortals rnd portals st)) = p_immunityInventory (fst st)"
proof -
  have "p_coinsCollected (fst (fold (portalStep rnd portals) xs st)) = p_coinsCollected (fst st) \<and>
    p_immunityInventory (fst (fold (portalStep rnd portals) xs st)) = p_immunityInventory (fst st)"
    for xs
    by (rule fold_invariant [where I = "\<lambda>s. p_coinsCollected (fst s) = p_coinsCollected (fst st) \<and>
          p_immunityInventory (fst s) = p_immunityInventory (fst st)"])
       (simp_all add: portalStep_counters)
  then show ?thesis by (simp add: usePortals_def)
qed

lemma remainingChecks_player:
  assumes "i < length (gs_players gameState)"
  shows "gs_players (fst (remainingChecks rnd wall i (gameState, k, evs))) ! i =
     fst (usePortals rnd (gs_portals gameState)
       (fst (collectSinks
              (fst (collectImmunities (gs_gameTime gameState)
                     (fst (collectCoins (gs_players gameState ! i) (gs_coins gameState)))
                     (gs_immunityPickups gameState)))
              (gs_sinkCollectibles gameState)),
        fst (snd (enemyCollisions rnd wall (gs_map gameState) (gs_roomCode gameState)
                    (gs_players gameState ! i) (gs_enemies gameState) k evs))))"
  using assms by (simp add: remainingChecks_def split_beta Let_def)

lemma remainingChecks_coins:
  "gs_coins (fst (remainingChecks rnd wall i (gameState, k, evs))) =
     snd (collectCoins (gs_players gameState ! i) (gs_coins gameState))"
  by (simp add: remainingChecks_def split_beta Let_def)

lemma remainingChecks_events:
  "snd (snd (remainingChecks rnd wall i (gameState, k, evs))) =
     snd (snd (enemyCollisions rnd wall (gs_map gameState) (gs_roomCode gameState)
                 (gs_players gameState ! i) (gs_enemies gameState) k evs))"
  by (simp add: remainingChecks_def split_beta Let_def)

lemma remainingChecks_counters:
  assumes "i < length (gs_players gameState)"
  shows "p_coinsCollected (gs_players (fst (remainingChecks rnd wall i (gameState, k, evs))) ! i) =
           p_coinsCollected (fst (collectCoins (gs_players gameState ! i) (gs_coins gameState)))"
    and "p_immunityInventory (gs_players (fst (remainingChecks rnd wall i (gameState, k, evs))) ! i) =
           p_immunityInventory (fst (collectCoins (gs_players gameState ! i) (gs_coins gameState)))"
  unfolding remainingChecks_player [OF assms]
  by (simp_all add: usePortals_counters collectSinks_counters collectImmunities_counters)

text \<open>
  Claim C3. A coin in reach is collected and credits the player: the counter goes up by
  one; when it reaches 5, with fewer than 3 charges in the inventory the inventory goes
  up by one and the counter back to 0, and with the inventory at 3 the counter is set
  to 4. A coin out of reach, or collected already, changes nothing. From counter 0 and
  inventory 0, a coin loop that collects 5 coins ends with inventory 1 and counter 0.
  In the pass, for a player who does not die of lava, the counter, the inventory and the
  coins are the ones the coin loop leaves.
\<close>

theorem coin_conversion:
  "(coinInReach player c \<longrightarrow>
      c_collected (snd (collectCoin player c)) \<and>
      (p_coinsCollected player + 1 < 5 \<longrightarrow>
         p_coinsCollected (fst (collectCoin player c)) = p_coinsCollected player + 1 \<and>
         p_immunityInventory (fst (collectCoin player c)) = p_immunityInventory player) \<and>
      (p_coinsCollected player + 1 \<ge> 5 \<and> p_immunityInventory player < 3 \<longrightarrow>
         p_coinsCollected (fst (collectCoin player c)) = 0 \<and>
         p_immunityInventory (fst (collectCoin player c)) = p_immunityInventory player + 1) \<and>
      (p_coinsCollected player + 1 \<ge> 5 \<and> p_immunityInventory player \<ge> 3 \<longrightarrow>
         p_coinsCollected (fst (collectCoin player c)) = 4 \<and>
         p_immunityInventory (fst (collectCoin player c)) = p_immunityInventory player)) \<and>
   (\<not> coinInReach player c \<longrightarrow> collectCoin player c = (player, c)) \<and>
   (p_coinsCollected player = 0 \<and> p_immunityInventory player = 0 \<and>
    length (filter (coinInReach player) coins) = 5 \<longrightarrow>
      p_coinsCollected (fst (collectCoins player coins)) = 0 \<and>
      p_immunityInventory (fst (collectCoins player coins)) = 1) \<and>
   (i < length (gs_players gameState) \<and>
    \<not> (onLava (gs_map gameState) (gs_players gameState ! i) \<and>
       \<not> onBoat (gs_boats gameState) (gs_players gameState ! i)) \<longrightarrow>
      p_coinsCollected (gs_players (fst (checkPlayer rnd wall i (gameState, k, evs))) ! i) =
        p_coinsCollected (fst (collectCoins (gs_players gameState ! i) (gs_coins gameState))) \<and>
      p_immunityInventory (gs_players (fst (checkPlayer rnd wall i (gameState, k, evs))) ! i) =
        p_immunityInventory (fst (collectCoins (gs_players gameState ! i) (gs_coins gameState))) \<and>
      gs_coins (fst (checkPlayer rnd wall i (gameState, k, evs))) =
        snd (collectCoins (gs_players gameState ! i) (gs_coins gameState)))"
proof (intro conjI impI)
  assume "coinInReach player c"
  then have cc: "collectCoin player c = (creditCoin player, c\<lparr>c_collected := True\<rparr>)"
    by (rule collectCoin_reach)
  show "c_collected (snd (collectCoin player c))"
    by (simp add: cc)
  {
    assume "p_coinsCollected player + 1 < 5"
    then show "p_coinsCollected (fst (collectCoin player c)) = p_coinsCollected player + 1"
      and "p_immunityInventory (fst (collectCoin player c)) = p_immunityInventory player"
      by (simp_all add: cc creditCoin_coins creditCoin_inventory)
  }
  {
    assume "p_coinsCollected player + 1 \<ge> 5 \<and> p_immunityInventory player < 3"
    then show "p_coinsCollected (fst (collectCoin player c)) = 0"
      and "p_immunityInventory (fst (collectCoin player c)) = p_immunityInventory player + 1"
      by (simp_all add: cc creditCoin_coins creditCoin_inventory)
  }
  {
    assume "p_coinsCollected player + 1 \<ge> 5 \<and> p_immunityInventory player \<ge> 3"
    then show "p_coinsCollected (fst (collectCoin player c)) = 4"
      and "p_immunityInventory (fst (collectCoin player c)) = p_immunityInventory player"
      by (simp_all add: cc creditCoin_coins creditCoin_inventory)
  }
next
  assume "\<not> coinInReach player c"
  then show "collectCoin player c = (player, c)" by (rule collectCoin_out)
next
  assume a: "p_coinsCollected player = 0 \<and> p_immunityInventory player = 0 \<and>
    length (filter (coinInReach player) coins) = 5"
  then show "p_coinsCollected (fst (collectCoins player coins)) = 0"
    and "p_immunityInventory (fst (collectCoins player coins)) = 1"
    by (simp_all add: collectCoins_credit five_coins)
next
  assume a: "i < length (gs_players gameState) \<and>
    \<not> (onLava (gs_map gameState) (gs_players gameState ! i) \<and>
       \<not> onBoat (gs_boats gameState) (gs_players gameState ! i))"
  then have cp: "checkPlayer rnd wall i (gameState, k, evs) =
      remainingChecks rnd wall i (gameState, k, evs)"
    by (auto simp: checkPlayer_def)
  from a have i: "i < length (gs_players gameState)" by simp
  show "p_coinsCollected (gs_players (fst (checkPlayer rnd wall i (gameState, k, evs))) ! i) =
        p_coinsCollected (fst (collectCoins (gs_players gameState ! i) (gs_coins gameState)))"
    and "p_immunityInventory (gs_players (fst (checkPlayer rnd wall i (gameState, k, evs))) ! i) =
        p_immunityInventory (fst (collectCoins (gs_players gameState ! i) (gs_coins gameState)))"
    and "gs_coins (fst (checkPlayer rnd wall i (gameState, k, evs))) =
        snd (collectCoins (gs_players gameState ! i) (gs_coins gameState))"
    unfolding cp
    by (simp_all add: remainingChecks_counters [OF i] remainingChecks_coins)
qed

lemma coinEx_reach: "coinInReach playerEx coinEx"
  by (simp add: coinInReach_def playerEx_def coinEx_def hypot_def)

lemma coinEx_reach_full: "coinInReach playerFull coinEx"
  by (simp add: coinInReach_def playerFull_def playerEx_def coinEx_def hypot_def)

theorem coin_conversion_witness:
  "coinInReach playerEx coinEx \<and>
   p_coinsCollected playerEx = 0 \<and> p_immunityInventory playerEx = 0 \<and>
   p_coinsCollected (fst (collectCoin playerEx coinEx)) = 1 \<and>
   length (filter (coinInReach playerEx) (replicate 5 coinEx)) = 5 \<and>
   p_coinsCollected (fst (collectCoins playerEx (replicate 5 coinEx))) = 0 \<and>
   p_immunityInventory (fst (collectCoins playerEx (replicate 5 coinEx))) = 1 \<and>
   coinInReach playerFull coinEx \<and>
   p_coinsCollected playerFull = 4 \<and> p_immunityInventory playerFull = 3 \<and>
   p_coinsCollected (fst (collectCoin playerFull coinEx)) = 4 \<and>
   p_immunityInventory (fst (collectCoin playerFull coinEx)) = 3"
proof -
  have z: "p_coinsCollected playerEx = 0" "p_immunityInventory playerEx = 0"
    by (simp_all add: playerEx_def)
  have f: "p_coinsCollected playerFull = 4" "p_immunityInventory playerFull = 3"
    by (simp_all add: playerFull_def)
  have n: "length (filter (coinInReach playerEx) (replicate 5 coinEx)) = 5"
    by (simp add: coinEx_reach)
  from coin_conversion [where player = playerEx and c = coinEx and coins = "replicate 5 coinEx"]
    coinEx_reach z n
  have a: "p_coinsCollected (fst (collectCoin playerEx coinEx)) = 1"
    "p_coinsCollected (fst (collectCoins playerEx (replicate 5 coinEx))) = 0"
    "p_immunityInventory (fst (collectCoins playerEx (replicate 5 coinEx))) = 1"
    by simp_all
  from coin_conversion [where player = playerFull and c = coinEx] coinEx_reach_full f
  have b: "p_coinsCollected (fst (collectCoin playerFull coinEx)) = 4"
    "p_immunityInventory (fst (collectCoin playerFull coinEx)) = 3"
    by simp_all
  from coinEx_reach coinEx_reach_full z f n a b show ?thesis by simp
qed


lemma enemyContact_quiet:
  assumes "p_immunityActive player \<or> \<not> inContact player enemy"
  shows "snd (snd (enemyContact rnd wall m roomCode player enemy k evs)) = evs"
  using assms by (auto simp: enemyContact_def inContact_def split_beta)

lemma enemyCollisions_quiet:
  assumes "p_immunityActive player \<or> (\<forall>enemy \<in> set enemies. \<not> inContact player enemy)"
  shows "snd (snd (enemyCollisions rnd wall m roomCode player enemies k evs)) = evs"
  using assms
proof (induction enemies arbitrary: k evs)
  case Nil
  show ?case by simp
next
  case (Cons enemy enemies)
  from Cons.prems have 1: "p_immunityActive player \<or> \<not> inContact player enemy"
    and 2: "p_immunityActive player \<or> (\<forall>enemy \<in> set enemies. \<not> inContact player enemy)"
    by auto
  from enemyContact_quiet [OF 1] Cons.IH [OF 2] show ?case
    by (simp add: split_beta)
qed

text \<open>
  Claim C8, as amended. For a player whose tile is lava: with no boat under the player,
  the callback emits one death event for the player and returns, the state and the
  position in the random sequence as they were; with a boat under the player, the lava
  test emits nothing and the callback goes on with the remaining checks, where the only
  death event is that of the contact with an enemy while the player has no immunity.
\<close>

theorem lava_death_rule:
  assumes "onLava (gs_map gameState) (gs_players gameState ! i)"
  shows "(\<not> onBoat (gs_boats gameState) (gs_players gameState ! i) \<longrightarrow>
            checkPlayer rnd wall i (gameState, k, evs) =
              (gameState, k,
               evs @ [PlayerDeath (gs_roomCode gameState) (p_id (gs_players gameState ! i))])) \<and>
         (onBoat (gs_boats gameState) (gs_players gameState ! i) \<longrightarrow>
            checkPlayer rnd wall i (gameState, k, evs) =
              remainingChecks rnd wall i (gameState, k, evs) \<and>
            (p_immunityActive (gs_players gameState ! i) \<or>
             (\<forall>enemy \<in> set (gs_enemies gameState). \<not> inContact (gs_players gameState ! i) enemy)
             \<longrightarrow> snd (snd (checkPlayer rnd wall i (gameState, k, evs))) = evs))"
  using assms
  by (auto simp: checkPlayer_def remainingChecks_events enemyCollisions_quiet)


lemma playerLava_onLava: "onLava mapLava playerLava"
  by code_simp

lemma playerLava_onBoat: "onBoat [boatEx] playerLava"
  by code_simp

lemma playerLava_contact: "inContact playerLava enemyEx"
  by (simp add: inContact_def hypot_less_iff playerLava_def playerEx_def enemyEx_def)

text \<open>
  The claim C8 as stated, that no death event is signalled for a player on lava under
  whom there is a boat, fails: the enemy check still runs, and an enemy in contact kills
  a player without immunity on the boat.
\<close>

theorem lava_boat_enemy_death:
  "onLava (gs_map gsLava) (gs_players gsLava ! 0) \<and>
   onBoat (gs_boats gsLava) (gs_players gsLava ! 0) \<and>
   snd (snd (checkPlayer rndEx 0 0 (gsLava, 0, []))) = [PlayerDeath ''ROOM01'' ''a'']"
proof -
  have g: "gs_map gsLava = mapLava" "gs_players gsLava = [playerLava]"
    "gs_boats gsLava = [boatEx]" "gs_enemies gsLava = [enemyEx]" "gs_roomCode gsLava = ''ROOM01''"
    by (simp_all add: gsLava_def gsEx_def)
  have p: "\<not> p_immunityActive playerLava" "p_id playerLava = ''a''"
    by (simp_all add: playerLava_def playerEx_def)
  have ev: "snd (snd (enemyCollisions rndEx 0 mapLava ''ROOM01'' playerLava [enemyEx] 0 [])) =
      [PlayerDeath ''ROOM01'' ''a'']"
    using playerLava_contact p by (simp add: enemyContact_def inContact_def)
  have "checkPlayer rndEx 0 0 (gsLava, 0, []) = remainingChecks rndEx 0 0 (gsLava, 0, [])"
    by (simp add: checkPlayer_def g playerLava_onLava playerLava_onBoat)
  then have "snd (snd (checkPlayer rndEx 0 0 (gsLava, 0, []))) = [PlayerDeath ''ROOM01'' ''a'']"
    by (simp only: remainingChecks_events g nth_Cons_0 ev)
  then show ?thesis
    by (simp add: g playerLava_onLava playerLava_onBoat)
qed

theorem lava_death_rule_witness:
  "onLava (gs_map gsLavaNoBoat) (gs_players gsLavaNoBoat ! 0) \<and>
   \<not> onBoat (gs_boats gsLavaNoBoat) (gs_players gsLavaNoBoat ! 0) \<and>
   checkPlayer rndEx 0 0 (gsLavaNoBoat, 0, []) =
     (gsLavaNoBoat, 0, [PlayerDeath ''ROOM01'' ''a'']) \<and>
   onLava (gs_map gsLavaImmune) (gs_players gsLavaImmune ! 0) \<and>
   onBoat (gs_boats gsLavaImmune) (gs_players gsLavaImmune ! 0) \<and>
   p_immunityActive (gs_players gsLavaImmune ! 0) \<and>
   snd (snd (checkPlayer rndEx 0 0 (gsLavaImmune, 0, []))) = []"
proof -
  have g: "gs_map gsLavaNoBoat = mapLava" "gs_players gsLavaNoBoat = [playerLava]"
    "gs_boats gsLavaNoBoat = []" "gs_roomCode gsLavaNoBoat = ''ROOM01''"
    by (simp_all add: gsLavaNoBoat_def gsLava_def gsEx_def)
  have h: "gs_map gsLavaImmune = mapLava"
    "gs_players gsLavaImmune = [playerLava\<lparr>p_immunityActive := True\<rparr>]"
    "gs_boats gsLavaImmune = [boatEx]"
    by (simp_all add: gsLavaImmune_def gsLava_def gsEx_def)
  have l1: "onLava (gs_map gsLavaNoBoat) (gs_players gsLavaNoBoat ! 0)"
    by (simp add: g playerLava_onLava)
  have b1: "\<not> onBoat (gs_boats gsLavaNoBoat) (gs_players gsLavaNoBoat ! 0)"
    by (simp add: g onBoat_def)
  have l2: "onLava (gs_map gsLavaImmune) (gs_players gsLavaImmune ! 0)"
    using playerLava_onLava by (simp add: h onLava_def)
  have b2: "onBoat (gs_boats gsLavaImmune) (gs_players gsLavaImmune ! 0)"
    using playerLava_onBoat by (simp add: h onBoat_def boatOverlaps_def)
  have i2: "p_immunityActive (gs_players gsLavaImmune ! 0)"
    by (simp add: h)
  from lava_death_rule [OF l1, of rndEx 0 0 "[]"] b1
  have c1: "checkPlayer rndEx 0 0 (gsLavaNoBoat, 0, []) =
     (gsLavaNoBoat, 0, [PlayerDeath ''ROOM01'' ''a''])"
    by (simp add: g playerLava_def playerEx_def)
  from lava_death_rule [OF l2, of rndEx 0 0 "[]"] b2 i2
  have c2: "snd (snd (checkPlayer rndEx 0 0 (gsLavaImmune, 0, []))) = []"
    by blast
  from l1 b1 c1 l2 b2 i2 c2 show ?thesis by blast
qed

subsection \<open>Properties of the coin schedule\<close>

lemma coinsGrow_refl: "coinsGrow 0 gs gs"
  by (simp add: coinsGrow_def)

lemma coinsGrow_trans:
  "coinsGrow a gs gs1 \<Longrightarrow> coinsGrow b gs1 gs2 \<Longrightarrow> coinsGrow (a + b) gs gs2"
  unfolding coinsGrow_def by (elim exE conjE) (rule_tac x = "added @ addeda" in exI, auto)

lemma coinsGrow_mono: "coinsGrow a gs gs' \<Longrightarrow> a \<le> b \<Longrightarrow> coinsGrow b gs gs'"
  unfolding coinsGrow_def by (meson order_trans)

lemma coinsGrow_cong:
  "gs_coins gs = gs_coins gs0 \<Longrightarrow> coinsGrow n gs gs' \<Longrightarrow> coinsGrow n gs0 gs'"
  by (simp add: coinsGrow_def)

lemma spawnCoinLoop_grow:
  "coinsGrow 1 gs (fst (spawnCoinLoop rnd wall n (gs, k))) \<and>
   coinClock (fst (spawnCoinLoop rnd wall n (gs, k))) = coinClock gs"
proof (induction n arbitrary: k)
  case 0
  show ?case using coinsGrow_mono [OF coinsGrow_refl, of 1 gs] by simp
next
  case (Suc n)
  show ?case
    using Suc.IH by (simp add: Let_def coinsGrow_def coinClock_def)
qed

lemma spawnCoin_grow:
  "coinsGrow 1 (fst st) (fst (spawnCoin rnd wall st)) \<and>
   coinClock (fst (spawnCoin rnd wall st)) = coinClock (fst st)"
proof (cases st)
  case (Pair gs k)
  then show ?thesis
    using spawnCoinLoop_grow [of gs rnd wall 100 k]
      coinsGrow_mono [OF coinsGrow_refl, of 1 gs]
    by (simp add: spawnCoin_def)
qed

lemma uncollected_grow:
  "coinsGrow n gs gs' \<Longrightarrow> uncollectedCoins gs' \<le> uncollectedCoins gs + n"
  by (auto simp: coinsGrow_def uncollectedCoins_def intro: order_trans [OF length_filter_le])

lemma spawnCoin_cap:
  assumes "uncollectedCoins (fst st) \<le> 40"
  shows "uncollectedCoins (fst (spawnCoin rnd wall st)) \<le> 40"
proof (cases "uncollectedCoins (fst st) \<ge> 40")
  case True
  with assms show ?thesis by (simp add: spawnCoin_def)
next
  case False
  with uncollected_grow [of 1 "fst st" "fst (spawnCoin rnd wall st)"] spawnCoin_grow [of st rnd wall]
  show ?thesis by simp
qed

lemma spawnCoins_grow:
  "coinsGrow n (fst st) (fst ((spawnCoin rnd wall ^^ n) st)) \<and>
   coinClock (fst ((spawnCoin rnd wall ^^ n) st)) = coinClock (fst st)"
proof (induction n)
  case 0
  show ?case by (simp add: coinsGrow_refl)
next
  case (Suc n)
  from Suc.IH spawnCoin_grow [of "(spawnCoin rnd wall ^^ n) st" rnd wall]
  show ?case
    using coinsGrow_trans [of n "fst st" "fst ((spawnCoin rnd wall ^^ n) st)" 1
        "fst (spawnCoin rnd wall ((spawnCoin rnd wall ^^ n) st))"]
    by simp
qed

lemma spawnCoins_cap:
  "uncollectedCoins (fst st) \<le> 40 \<Longrightarrow> uncollectedCoins (fst ((spawnCoin rnd wall ^^ n) st)) \<le> 40"
  by (induction n) (simp_all add: spawnCoin_cap)


lemma nextCoinInterval_range: "0 \<le> r \<Longrightarrow> r < 1 \<Longrightarrow> 3 \<le> nextCoinInterval r \<and> nextCoinInterval r < 7"
  by (simp add: nextCoinInterval_def)

lemma numCoins_range: "0 \<le> r \<Longrightarrow> r < 1 \<Longrightarrow> 3 \<le> numCoins r \<and> numCoins r \<le> 5"
proof -
  assume r: "0 \<le> r" "r < 1"
  then have "0 \<le> \<lfloor>r * 3\<rfloor>" by simp
  moreover from r have "r * 3 < 3" by simp
  then have "\<lfloor>r * 3\<rfloor> < 3" by (simp add: floor_less_iff)
  ultimately show ?thesis by (simp add: numCoins_def)
qed

lemma seedCoins_grow:
  "coinsGrow (if gs_coinsInitialized gs then 0 else 20) gs (fst (seedCoins rnd wall (gs, k))) \<and>
   gs_coinSpawnTimer (fst (seedCoins rnd wall (gs, k))) = gs_coinSpawnTimer gs \<and>
   gs_nextCoinSpawnTime (fst (seedCoins rnd wall (gs, k))) = gs_nextCoinSpawnTime gs \<and>
   gs_coinsInitialized (fst (seedCoins rnd wall (gs, k)))"
proof (cases "gs_coinsInitialized gs")
  case True
  then show ?thesis by (simp add: seedCoins_def coinsGrow_refl)
next
  case False
  let ?st = "(gs\<lparr>gs_coinsInitialized := True\<rparr>, k)"
  from spawnCoins_grow [of 20 ?st rnd wall]
  have "coinsGrow 20 (fst ?st) (fst ((spawnCoin rnd wall ^^ 20) ?st))"
    and "coinClock (fst ((spawnCoin rnd wall ^^ 20) ?st)) = coinClock (fst ?st)"
    by simp_all
  with False show ?thesis
    by (simp add: seedCoins_def coinClock_def coinsGrow_def)
qed

lemma seedCoins_cap:
  assumes "uncollectedCoins gs \<le> 40"
  shows "uncollectedCoins (fst (seedCoins rnd wall (gs, k))) \<le> 40"
proof (cases "gs_coinsInitialized gs")
  case True
  with assms show ?thesis by (simp add: seedCoins_def)
next
  case False
  have "uncollectedCoins (fst (gs\<lparr>gs_coinsInitialized := True\<rparr>, k)) \<le> 40"
    using assms by (simp add: uncollectedCoins_def)
  then have "uncollectedCoins
      (fst ((spawnCoin rnd wall ^^ 20) (gs\<lparr>gs_coinsInitialized := True\<rparr>, k))) \<le> 40"
    by (rule spawnCoins_cap)
  with False show ?thesis by (simp add: seedCoins_def)
qed

lemma coinTimer_due:
  assumes "gs_coinSpawnTimer gs + deltaTime \<ge> gs_nextCoinSpawnTime gs"
  shows "coinsGrow (nat (numCoins (rnd (k + 1)))) gs (fst (coinTimer rnd wall deltaTime (gs, k))) \<and>
         gs_coinSpawnTimer (fst (coinTimer rnd wall deltaTime (gs, k))) = 0 \<and>
         gs_nextCoinSpawnTime (fst (coinTimer rnd wall deltaTime (gs, k))) = nextCoinInterval (rnd k) \<and>
         gs_coinsInitialized (fst (coinTimer rnd wall deltaTime (gs, k))) = gs_coinsInitialized gs"
proof -
  let ?st = "(gs\<lparr>gs_coinSpawnTimer := 0, gs_nextCoinSpawnTime := nextCoinInterval (rnd k)\<rparr>, k + 2)"
  let ?n = "nat (numCoins (rnd (k + 1)))"
  from spawnCoins_grow [of ?n ?st rnd wall]
  have "coinsGrow ?n (fst ?st) (fst ((spawnCoin rnd wall ^^ ?n) ?st))"
    and "coinClock (fst ((spawnCoin rnd wall ^^ ?n) ?st)) = coinClock (fst ?st)"
    by simp_all
  with assms show ?thesis
    by (simp add: coinTimer_def coinClock_def coinsGrow_def)
qed

lemma coinTimer_wait:
  assumes "gs_coinSpawnTimer gs + deltaTime < gs_nextCoinSpawnTime gs"
  shows "fst (coinTimer rnd wall deltaTime (gs, k)) =
           gs\<lparr>gs_coinSpawnTimer := gs_coinSpawnTimer gs + deltaTime\<rparr>"
  using assms by (simp add: coinTimer_def)

lemma coinTimer_cap:
  assumes "uncollectedCoins gs \<le> 40"
  shows "uncollectedCoins (fst (coinTimer rnd wall deltaTime (gs, k))) \<le> 40"
proof (cases "gs_coinSpawnTimer gs + deltaTime \<ge> gs_nextCoinSpawnTime gs")
  case True
  let ?st = "(gs\<lparr>gs_coinSpawnTimer := 0, gs_nextCoinSpawnTime := nextCoinInterval (rnd k)\<rparr>, k + 2)"
  have "uncollectedCoins (fst ?st) \<le> 40"
    using assms by (simp add: uncollectedCoins_def)
  then have "uncollectedCoins
      (fst ((spawnCoin rnd wall ^^ nat (numCoins (rnd (k + 1)))) ?st)) \<le> 40"
    by (rule spawnCoins_cap)
  with True show ?thesis by (simp add: coinTimer_def)
next
  case False
  with assms show ?thesis by (simp add: coinTimer_def uncollectedCoins_def)
qed

lemma coinView_speedBoost: "coinView (speedBoost gs) = coinView gs"
  by (simp add: speedBoost_def coinView_def)

lemma coinView_spawnImmunityLoop:
  "coinView (fst (spawnImmunityLoop rnd wall q minX maxX minY maxY n (gs, k))) = coinView gs"
  by (induction n arbitrary: k) (simp_all add: Let_def coinView_def)

lemma coinView_spawnImmunityPickup:
  "coinView (fst (spawnImmunityPickup rnd wall q st)) = coinView (fst st)"
  by (cases st) (simp add: spawnImmunityPickup_def Let_def coinView_spawnImmunityLoop)

lemma coinView_spawnSinkLoop:
  "coinView (fst (spawnSinkLoop rnd wall n (gs, k))) = coinView gs"
  by (induction n arbitrary: k) (simp_all add: Let_def coinView_def)

lemma coinView_spawnSinkCollectible:
  "coinView (fst (spawnSinkCollectible rnd wall st)) = coinView (fst st)"
  by (cases st) (simp add: spawnSinkCollectible_def coinView_spawnSinkLoop)

lemma coinView_fold:
  assumes "\<And>x s. coinView (fst (f x s)) = coinView (fst s)"
  shows "coinView (fst (fold f xs st)) = coinView (fst st)"
  by (rule fold_invariant [where I = "\<lambda>s. coinView (fst s) = coinView (fst st)"])
     (simp_all add: assms)

lemma coinView_update [simp]:
  "coinView (gs\<lparr>gs_collectiblesInitialized := a\<rparr>) = coinView gs"
  "coinView (gs\<lparr>gs_immunityPickupSpawnTimer := b\<rparr>) = coinView gs"
  "coinView (gs\<lparr>gs_nextImmunityPickupSpawnTime := c\<rparr>) = coinView gs"
  "coinView (gs\<lparr>gs_sinkSpawnTimer := d\<rparr>) = coinView gs"
  "coinView (gs\<lparr>gs_nextSinkSpawnTime := e\<rparr>) = coinView gs"
  "coinView (gs\<lparr>gs_enemySpawnTimer := f\<rparr>) = coinView gs"
  "coinView (gs\<lparr>gs_enemies := g\<rparr>) = coinView gs"
  by (simp_all add: coinView_def)


lemma coinView_spawnCollectibles:
  "coinView (fst (spawnCollectibles rnd wall deltaTime st)) = coinView (fst st)"
proof -
  have f1: "coinView (fst (fold (spawnImmunityPickup rnd wall) xs s)) = coinView (fst s)" for xs s
    by (rule coinView_fold) (rule coinView_spawnImmunityPickup)
  have f2: "coinView (fst (fold (\<lambda>q s. if P q then spawnImmunityPickup rnd wall q s else s) xs s)) =
      coinView (fst s)" for P xs s
    by (rule coinView_fold) (simp add: coinView_spawnImmunityPickup)
  show ?thesis
    by (simp add: spawnCollectibles_def Let_def split_beta coinView_spawnSinkCollectible f1 f2)
qed

lemma coinView_addEnemy:
  "coinView (fst (addEnemy rnd wall cx cy st)) = coinView (fst st)"
  by (simp add: addEnemy_def split_beta split: option.splits)

lemma coinView_spawnEnemies:
  "coinView (fst (spawnEnemies rnd wall deltaTime st)) = coinView (fst st)"
  by (simp add: spawnEnemies_def Let_def split_beta eval_nat_numeral coinView_addEnemy)

lemma coinView_handleSpawning:
  "coinView (fst (handleSpawning rnd wall deltaTime (gs, k))) =
     coinView (fst (coinTimer rnd wall deltaTime (seedCoins rnd wall (speedBoost gs, k))))"
  by (simp add: handleSpawning_def coinView_spawnEnemies coinView_spawnCollectibles)

lemma coinView_fields:
  "coinView a = coinView b \<Longrightarrow>
     gs_coins a = gs_coins b \<and> gs_coinSpawnTimer a = gs_coinSpawnTimer b \<and>
     gs_nextCoinSpawnTime a = gs_nextCoinSpawnTime b \<and>
     gs_coinsInitialized a = gs_coinsInitialized b \<and> uncollectedCoins a = uncollectedCoins b"
  by (simp add: coinView_def uncollectedCoins_def)


lemma attemptFits_frame:
  "gs_map a = gs_map b \<Longrightarrow> map (\<lambda>p. (p_x p, p_y p)) (gs_players a) = map (\<lambda>p. (p_x p, p_y p)) (gs_players b) \<Longrightarrow>
   attemptFits rnd a k = attemptFits rnd b k"
proof -
  assume m: "gs_map a = gs_map b"
    and p: "map (\<lambda>p. (p_x p, p_y p)) (gs_players a) = map (\<lambda>p. (p_x p, p_y p)) (gs_players b)"
  have "list_ex (\<lambda>player. hypot (cx - p_x player) (cy - p_y player) < 200) ps =
        list_ex (\<lambda>(x, y). hypot (cx - x) (cy - y) < 200) (map (\<lambda>p. (p_x p, p_y p)) ps)" for cx cy ps
    by (induction ps) simp_all
  note L = this
  show ?thesis by (simp only: attemptFits_def m L p)
qed

lemma attemptFits_update [simp]:
  "attemptFits rnd (gs\<lparr>gs_coins := c\<rparr>) k = attemptFits rnd gs k"
  "attemptFits rnd (gs\<lparr>gs_coinsInitialized := i\<rparr>) k = attemptFits rnd gs k"
  "attemptFits rnd (gs\<lparr>gs_coinSpawnTimer := t\<rparr>) k = attemptFits rnd gs k"
  "attemptFits rnd (gs\<lparr>gs_nextCoinSpawnTime := n\<rparr>) k = attemptFits rnd gs k"
  by (simp_all add: attemptFits_def)

lemma attemptFits_speedBoost: "attemptFits rnd (speedBoost gs) k = attemptFits rnd gs k"
  by (rule attemptFits_frame) (simp_all add: speedBoost_def comp_def)

lemma spawnCoinLoop_step:
  "spawnCoinLoop rnd wall (Suc m) (gs, k) =
     (if attemptFits rnd gs k
      then (gs\<lparr>gs_coins := gs_coins gs @ [coinAt rnd wall k]\<rparr>, k + 3)
      else spawnCoinLoop rnd wall m (gs, k + 2))"
  by (simp add: attemptFits_def coinAt_def Let_def)

lemma spawnCoinLoop_first_fit:
  assumes "n < m" and "\<forall>i < n. \<not> attemptFits rnd gs (k + 2 * i)"
    and "attemptFits rnd gs (k + 2 * n)"
  shows "spawnCoinLoop rnd wall m (gs, k) =
           (gs\<lparr>gs_coins := gs_coins gs @ [coinAt rnd wall (k + 2 * n)]\<rparr>, k + 2 * n + 3)"
  using assms
proof (induction n arbitrary: m k)
  case 0
  then obtain m' where "m = Suc m'" by (cases m) simp_all
  with 0 show ?case by (simp only: spawnCoinLoop_step) simp
next
  case (Suc n)
  then obtain m' where m: "m = Suc m'" by (cases m) simp_all
  from Suc.prems(2) have first: "\<not> attemptFits rnd gs k" by force
  have rest: "\<forall>i < n. \<not> attemptFits rnd gs (k + 2 + 2 * i)"
  proof (intro allI impI)
    fix i assume "i < n"
    then have "Suc i < Suc n" by simp
    with Suc.prems(2) have "\<not> attemptFits rnd gs (k + 2 * Suc i)" by blast
    then show "\<not> attemptFits rnd gs (k + 2 + 2 * i)" by (simp add: add.commute add.left_commute)
  qed
  have fit: "attemptFits rnd gs (k + 2 + 2 * n)"
    using Suc.prems(3) by (simp add: add.commute add.left_commute)
  from Suc.prems(1) m have "n < m'" by simp
  from Suc.IH [OF this rest fit] first show ?case
    by (simp only: m spawnCoinLoop_step) (simp add: add.commute add.left_commute)
qed

lemma spawnCoinLoop_none_fit:
  "\<forall>i < m. \<not> attemptFits rnd gs (k + 2 * i) \<Longrightarrow>
   spawnCoinLoop rnd wall m (gs, k) = (gs, k + 2 * m)"
proof (induction m arbitrary: k)
  case 0
  show ?case by simp
next
  case (Suc m)
  from Suc.prems have first: "\<not> attemptFits rnd gs k" by force
  have rest: "\<forall>i < m. \<not> attemptFits rnd gs (k + 2 + 2 * i)"
  proof (intro allI impI)
    fix i assume "i < m"
    then have "Suc i < Suc m" by simp
    with Suc.prems have "\<not> attemptFits rnd gs (k + 2 * Suc i)" by blast
    then show "\<not> attemptFits rnd gs (k + 2 + 2 * i)" by (simp add: add.commute add.left_commute)
  qed
  from Suc.IH [OF rest] first show ?case
    by (simp only: spawnCoinLoop_step) simp
qed

lemma uncollected_append:
  "\<forall>c \<in> set added. \<not> c_collected c \<Longrightarrow>
   uncollectedCoins (gs\<lparr>gs_coins := gs_coins gs @ added\<rparr>) = uncollectedCoins gs + length added"
  by (simp add: uncollectedCoins_def)

text \<open>
  When every attempt fits, \<open>n\<close> calls of \<^verbatim>\<open>spawnCoin\<close> add \<open>n\<close> coins, or as many as the cap
  of 40 leaves room for.
\<close>

lemma spawnCoins_all_fit:
  assumes fits: "\<forall>j. attemptFits rnd gs j" and cap: "uncollectedCoins gs \<le> 40"
  shows "\<exists>added j. (spawnCoin rnd wall ^^ n) (gs, k) = (gs\<lparr>gs_coins := gs_coins gs @ added\<rparr>, j) \<and>
           length added = min n (40 - uncollectedCoins gs) \<and>
           (\<forall>c \<in> set added. \<not> c_collected c)"
proof (induction n)
  case 0
  show ?case by simp
next
  case (Suc n)
  then obtain added j
    where st: "(spawnCoin rnd wall ^^ n) (gs, k) = (gs\<lparr>gs_coins := gs_coins gs @ added\<rparr>, j)"
      and len: "length added = min n (40 - uncollectedCoins gs)"
      and unc: "\<forall>c \<in> set added. \<not> c_collected c"
    by blast
  let ?g = "gs\<lparr>gs_coins := gs_coins gs @ added\<rparr>"
  have u: "uncollectedCoins ?g = uncollectedCoins gs + length added"
    using unc by (rule uncollected_append)
  show ?case
  proof (cases "n < 40 - uncollectedCoins gs")
    case True
    with u len have below: "uncollectedCoins ?g < 40" by simp
    from fits have "attemptFits rnd ?g (j + 2 * 0)" by simp
    from spawnCoinLoop_first_fit [of 0 100 rnd ?g j wall, OF _ _ this]
    have "spawnCoinLoop rnd wall 100 (?g, j) =
        (?g\<lparr>gs_coins := gs_coins ?g @ [coinAt rnd wall j]\<rparr>, j + 3)"
      by simp
    with below have "spawnCoin rnd wall (?g, j) =
        (gs\<lparr>gs_coins := gs_coins gs @ (added @ [coinAt rnd wall j])\<rparr>, j + 3)"
      by (simp add: spawnCoin_def)
    moreover have "length (added @ [coinAt rnd wall j]) = min (Suc n) (40 - uncollectedCoins gs)"
      using True len by simp
    moreover have "\<forall>c \<in> set (added @ [coinAt rnd wall j]). \<not> c_collected c"
      using unc by (simp add: coinAt_def)
    ultimately show ?thesis
      using st by (simp only: funpow.simps comp_apply) blast
  next
    case False
    with u len cap have "uncollectedCoins ?g \<ge> 40" by simp
    then have "spawnCoin rnd wall (?g, j) = (?g, j)"
      by (simp add: spawnCoin_def)
    moreover have "length added = min (Suc n) (40 - uncollectedCoins gs)"
      using False len by simp
    ultimately show ?thesis
      using st unc by (simp only: funpow.simps comp_apply) blast
  qed
qed


lemma sameSpawnView_refl: "sameSpawnView a a"
  by (simp add: sameSpawnView_def)

lemma sameSpawnView_fits:
  "sameSpawnView a b \<Longrightarrow> attemptFits rnd a k = attemptFits rnd b k"
  by (rule attemptFits_frame) (simp_all add: sameSpawnView_def)

lemma sameSpawnView_uncollected:
  "sameSpawnView a b \<Longrightarrow> uncollectedCoins a = uncollectedCoins b"
  by (simp add: sameSpawnView_def uncollectedCoins_def)

lemma spawnCoinLoop_same:
  assumes "sameSpawnView a b"
  shows "sameSpawnView (fst (spawnCoinLoop rnd wall n (a, k))) (fst (spawnCoinLoop rnd wall n (b, k))) \<and>
         snd (spawnCoinLoop rnd wall n (a, k)) = snd (spawnCoinLoop rnd wall n (b, k))"
proof (induction n arbitrary: k)
  case 0
  with assms show ?case by simp
next
  case (Suc n)
  show ?case
  proof (cases "attemptFits rnd a k")
    case True
    with sameSpawnView_fits [OF assms, where rnd = rnd and k = k] have "attemptFits rnd b k" by simp
    with True assms show ?thesis
      by (simp only: spawnCoinLoop_step) (simp add: sameSpawnView_def)
  next
    case False
    with sameSpawnView_fits [OF assms, where rnd = rnd and k = k] have "\<not> attemptFits rnd b k" by simp
    with False Suc.IH [of "k + 2"] show ?thesis
      by (simp only: spawnCoinLoop_step if_False)
  qed
qed

lemma spawnCoin_same:
  assumes "sameSpawnView a b"
  shows "sameSpawnView (fst (spawnCoin rnd wall (a, k))) (fst (spawnCoin rnd wall (b, k))) \<and>
         snd (spawnCoin rnd wall (a, k)) = snd (spawnCoin rnd wall (b, k))"
  using assms spawnCoinLoop_same [OF assms, where rnd = rnd and wall = wall and n = 100 and k = k] sameSpawnView_uncollected [OF assms]
  by (simp add: spawnCoin_def)

lemma spawnCoins_same:
  assumes "sameSpawnView a b"
  shows "sameSpawnView (fst ((spawnCoin rnd wall ^^ n) (a, k))) (fst ((spawnCoin rnd wall ^^ n) (b, k))) \<and>
         snd ((spawnCoin rnd wall ^^ n) (a, k)) = snd ((spawnCoin rnd wall ^^ n) (b, k))"
proof (induction n)
  case 0
  with assms show ?case by simp
next
  case (Suc n)
  obtain a' ka where sa: "(spawnCoin rnd wall ^^ n) (a, k) = (a', ka)" by (cases "(spawnCoin rnd wall ^^ n) (a, k)")
  obtain b' kb where sb: "(spawnCoin rnd wall ^^ n) (b, k) = (b', kb)" by (cases "(spawnCoin rnd wall ^^ n) (b, k)")
  from Suc.IH sa sb have v: "sameSpawnView a' b'" and kk: "ka = kb" by simp_all
  from spawnCoin_same [OF v, where rnd = rnd and wall = wall and k = ka] kk sa sb show ?case by simp
qed

text \<open>
  The coins after the spawning step are the coins after the calls of \<^verbatim>\<open>spawnCoin\<close> that it
  makes, run from the state at the start of the step: the calls of the seeding, and then
  those of the interval when the timer has reached it.
\<close>

lemma handleSpawning_calls:
  defines "seeded rnd wall gs k \<equiv>
    (spawnCoin rnd wall ^^ (if gs_coinsInitialized gs then 0 else 20)) (gs, k)"
  shows "(gs_coinSpawnTimer gs + deltaTime < gs_nextCoinSpawnTime gs \<longrightarrow>
           gs_coins (fst (handleSpawning rnd wall deltaTime (gs, k))) =
             gs_coins (fst (seeded rnd wall gs k))) \<and>
         (gs_coinSpawnTimer gs + deltaTime \<ge> gs_nextCoinSpawnTime gs \<longrightarrow>
           gs_coins (fst (handleSpawning rnd wall deltaTime (gs, k))) =
             gs_coins (fst ((spawnCoin rnd wall ^^ nat (numCoins (rnd (snd (seeded rnd wall gs k) + 1))))
                              (fst (seeded rnd wall gs k), snd (seeded rnd wall gs k) + 2))))"
proof -
  define gs0 where "gs0 = speedBoost gs"
  define s1 where "s1 = seedCoins rnd wall (gs0, k)"
  define gs1 where "gs1 = fst s1"
  define k1 where "k1 = snd s1"
  define gs2 where "gs2 = fst (coinTimer rnd wall deltaTime (gs1, k1))"
  define S where "S = seeded rnd wall gs k"
  have v0: "coinView gs0 = coinView gs"
    by (simp add: gs0_def coinView_speedBoost)
  note f0 = coinView_fields [OF v0]
  have v': "coinView (fst (handleSpawning rnd wall deltaTime (gs, k))) = coinView gs2"
    by (simp add: gs2_def gs1_def k1_def s1_def gs0_def coinView_handleSpawning)
  note f' = coinView_fields [OF v']
  have same0: "sameSpawnView gs0 gs"
    using f0 by (simp add: sameSpawnView_def gs0_def speedBoost_def comp_def)
  have same1: "sameSpawnView gs1 (fst S) \<and> k1 = snd S"
  proof (cases "gs_coinsInitialized gs")
    case True
    with f0 same0 show ?thesis
      by (simp add: gs1_def k1_def s1_def S_def seeded_def seedCoins_def)
  next
    case False
    have "sameSpawnView (gs0\<lparr>gs_coinsInitialized := True\<rparr>) gs"
      using same0 by (simp add: sameSpawnView_def)
    from spawnCoins_same [OF this, where rnd = rnd and wall = wall and n = 20 and k = k] False f0 show ?thesis
      by (simp add: gs1_def k1_def s1_def S_def seeded_def seedCoins_def)
  qed
  from seedCoins_grow [of gs0 rnd wall k]
  have t1: "gs_coinSpawnTimer gs1 = gs_coinSpawnTimer gs"
      "gs_nextCoinSpawnTime gs1 = gs_nextCoinSpawnTime gs"
    using f0 by (simp_all add: gs1_def s1_def)
  have wait: "gs_coinSpawnTimer gs + deltaTime < gs_nextCoinSpawnTime gs \<longrightarrow>
           gs_coins (fst (handleSpawning rnd wall deltaTime (gs, k))) = gs_coins (fst S)"
  proof
    assume "gs_coinSpawnTimer gs + deltaTime < gs_nextCoinSpawnTime gs"
    with t1 have "gs_coinSpawnTimer gs1 + deltaTime < gs_nextCoinSpawnTime gs1" by simp
    from coinTimer_wait [OF this, of rnd wall k1] have "gs_coins gs2 = gs_coins gs1"
      by (simp add: gs2_def)
    with same1 f' show "gs_coins (fst (handleSpawning rnd wall deltaTime (gs, k))) = gs_coins (fst S)"
      by (simp add: sameSpawnView_def)
  qed
  have due: "gs_coinSpawnTimer gs + deltaTime \<ge> gs_nextCoinSpawnTime gs \<longrightarrow>
           gs_coins (fst (handleSpawning rnd wall deltaTime (gs, k))) =
             gs_coins (fst ((spawnCoin rnd wall ^^ nat (numCoins (rnd (snd S + 1))))
                              (fst S, snd S + 2)))"
  proof
    assume "gs_coinSpawnTimer gs + deltaTime \<ge> gs_nextCoinSpawnTime gs"
    with t1 have d: "gs_coinSpawnTimer gs1 + deltaTime \<ge> gs_nextCoinSpawnTime gs1" by simp
    let ?g = "gs1\<lparr>gs_coinSpawnTimer := 0, gs_nextCoinSpawnTime := nextCoinInterval (rnd k1)\<rparr>"
    have "sameSpawnView ?g (fst S)"
      using same1 by (simp add: sameSpawnView_def)
    from spawnCoins_same [OF this, where rnd = rnd and wall = wall
        and n = "nat (numCoins (rnd (k1 + 1)))" and k = "k1 + 2"]
    have "gs_coins (fst ((spawnCoin rnd wall ^^ nat (numCoins (rnd (k1 + 1)))) (?g, k1 + 2))) =
          gs_coins (fst ((spawnCoin rnd wall ^^ nat (numCoins (rnd (k1 + 1)))) (fst S, k1 + 2)))"
      by (simp add: sameSpawnView_def)
    moreover have "gs2 = fst ((spawnCoin rnd wall ^^ nat (numCoins (rnd (k1 + 1)))) (?g, k1 + 2))"
      using d by (simp add: gs2_def coinTimer_def)
    ultimately show "gs_coins (fst (handleSpawning rnd wall deltaTime (gs, k))) =
             gs_coins (fst ((spawnCoin rnd wall ^^ nat (numCoins (rnd (snd S + 1))))
                              (fst S, snd S + 2)))"
      using same1 f' by simp
  qed
  from wait due show ?thesis by (simp only: S_def)
qed

text \<open>
  Claim C9, as amended. The state that \<^verbatim>\<open>initializeRoom\<close> returns has no coins, the coin
  timer at 0 and a first interval drawn from 10 to 15 seconds. A call of \<^verbatim>\<open>spawnCoin\<close> does
  nothing while 40 coins are uncollected; else it adds one uncollected coin at the centre
  of the tile of the first of its up to 100 attempts that fits (a road tile at least 200
  units from every player), and none when no attempt fits. The spawning step leaves the
  coins seeded: the coins after it are those after the 20 calls of the seeding, when the
  coins were not seeded, followed, when the timer has reached the interval, by 3 to 5
  calls more; then the timer is reset and the next interval is drawn from 3 to 7
  seconds, else the timer advances by the frame time. So the step adds uncollected coins
  after the old ones, at most 20 for the seeding and 5 for the interval, and never takes
  the uncollected coins above 40; and when every attempt fits it adds exactly 20 coins
  for the seeding and 3 to 5 for the interval, or as many of them as the cap of 40
  leaves room for.
\<close>

theorem coin_schedule:
  assumes rnd: "unitRange rnd" and cap: "uncollectedCoins gs \<le> 40"
  shows "(initializeRoom rnd wall rooms roomCode seedArg k0 = Some (Some gsNew, k0') \<longrightarrow>
           gs_coins gsNew = [] \<and> \<not> gs_coinsInitialized gsNew \<and> gs_coinSpawnTimer gsNew = 0 \<and>
           10 \<le> gs_nextCoinSpawnTime gsNew \<and> gs_nextCoinSpawnTime gsNew < 15) \<and>
         (uncollectedCoins gs \<ge> 40 \<longrightarrow> spawnCoin rnd wall (gs, k) = (gs, k)) \<and>
         (uncollectedCoins gs < 40 \<and> n < 100 \<and> (\<forall>i < n. \<not> attemptFits rnd gs (k + 2 * i)) \<and>
          attemptFits rnd gs (k + 2 * n) \<longrightarrow>
           spawnCoin rnd wall (gs, k) =
             (gs\<lparr>gs_coins := gs_coins gs @ [coinAt rnd wall (k + 2 * n)]\<rparr>, k + 2 * n + 3)) \<and>
         (uncollectedCoins gs < 40 \<and> (\<forall>i < 100. \<not> attemptFits rnd gs (k + 2 * i)) \<longrightarrow>
           spawnCoin rnd wall (gs, k) = (gs, k + 200)) \<and>
         (gs_coinsInitialized (fst (handleSpawning rnd wall deltaTime (gs, k)))) \<and>
         (uncollectedCoins (fst (handleSpawning rnd wall deltaTime (gs, k))) \<le> 40) \<and>
         (\<exists>added. gs_coins (fst (handleSpawning rnd wall deltaTime (gs, k))) = gs_coins gs @ added \<and>
           length added \<le> (if gs_coinsInitialized gs then 0 else 20) +
             (if gs_coinSpawnTimer gs + deltaTime \<ge> gs_nextCoinSpawnTime gs then 5 else 0) \<and>
           (\<forall>c \<in> set added. \<not> c_collected c)) \<and>
         ((\<forall>j. attemptFits rnd gs j) \<longrightarrow>
           (\<exists>added batch.
              gs_coins (fst (handleSpawning rnd wall deltaTime (gs, k))) = gs_coins gs @ added \<and>
              (if gs_coinSpawnTimer gs + deltaTime \<ge> gs_nextCoinSpawnTime gs
               then 3 \<le> batch \<and> batch \<le> 5 else batch = 0) \<and>
              length added =
                min ((if gs_coinsInitialized gs then 0 else 20) + batch)
                    (40 - uncollectedCoins gs))) \<and>
         (gs_coinSpawnTimer gs + deltaTime < gs_nextCoinSpawnTime gs \<longrightarrow>
           gs_coinSpawnTimer (fst (handleSpawning rnd wall deltaTime (gs, k))) =
             gs_coinSpawnTimer gs + deltaTime \<and>
           gs_nextCoinSpawnTime (fst (handleSpawning rnd wall deltaTime (gs, k))) =
             gs_nextCoinSpawnTime gs) \<and>
         (gs_coinSpawnTimer gs + deltaTime \<ge> gs_nextCoinSpawnTime gs \<longrightarrow>
           gs_coinSpawnTimer (fst (handleSpawning rnd wall deltaTime (gs, k))) = 0 \<and>
           3 \<le> gs_nextCoinSpawnTime (fst (handleSpawning rnd wall deltaTime (gs, k))) \<and>
           gs_nextCoinSpawnTime (fst (handleSpawning rnd wall deltaTime (gs, k))) < 7) \<and>
         (gs_coinSpawnTimer gs + deltaTime < gs_nextCoinSpawnTime gs \<longrightarrow>
           gs_coins (fst (handleSpawning rnd wall deltaTime (gs, k))) =
             gs_coins (fst ((spawnCoin rnd wall ^^ (if gs_coinsInitialized gs then 0 else 20))
                              (gs, k)))) \<and>
         (gs_coinSpawnTimer gs + deltaTime \<ge> gs_nextCoinSpawnTime gs \<longrightarrow>
           (\<exists>batch. 3 \<le> batch \<and> batch \<le> 5 \<and>
              gs_coins (fst (handleSpawning rnd wall deltaTime (gs, k))) =
                gs_coins (fst ((spawnCoin rnd wall ^^ batch)
                   (fst ((spawnCoin rnd wall ^^ (if gs_coinsInitialized gs then 0 else 20)) (gs, k)),
                    snd ((spawnCoin rnd wall ^^ (if gs_coinsInitialized gs then 0 else 20)) (gs, k))
                      + 2)))))"
proof -
  have p1: "initializeRoom rnd wall rooms roomCode seedArg k0 = Some (Some gsNew, k0') \<longrightarrow>
           gs_coins gsNew = [] \<and> \<not> gs_coinsInitialized gsNew \<and> gs_coinSpawnTimer gsNew = 0 \<and>
           10 \<le> gs_nextCoinSpawnTime gsNew \<and> gs_nextCoinSpawnTime gsNew < 15"
  proof
    assume "initializeRoom rnd wall rooms roomCode seedArg k0 = Some (Some gsNew, k0')"
    from initializeRoom_new [OF this] obtain m players enemies boats portals j r2 r3 mapSeed
      where g: "gsNew = newGameState roomCode m players enemies boats portals (rnd j) r2 r3 mapSeed"
      by blast
    from rnd have "0 \<le> rnd j" "rnd j < 1" by (simp_all add: unitRange_def)
    then show "gs_coins gsNew = [] \<and> \<not> gs_coinsInitialized gsNew \<and> gs_coinSpawnTimer gsNew = 0 \<and>
           10 \<le> gs_nextCoinSpawnTime gsNew \<and> gs_nextCoinSpawnTime gsNew < 15"
      by (simp add: g newGameState_def)
  qed
  have c1: "uncollectedCoins gs \<ge> 40 \<longrightarrow> spawnCoin rnd wall (gs, k) = (gs, k)"
    by (simp add: spawnCoin_def)
  have c2: "uncollectedCoins gs < 40 \<and> n < 100 \<and> (\<forall>i < n. \<not> attemptFits rnd gs (k + 2 * i)) \<and>
          attemptFits rnd gs (k + 2 * n) \<longrightarrow>
           spawnCoin rnd wall (gs, k) =
             (gs\<lparr>gs_coins := gs_coins gs @ [coinAt rnd wall (k + 2 * n)]\<rparr>, k + 2 * n + 3)"
    using spawnCoinLoop_first_fit [of n 100 rnd gs k wall] by (simp add: spawnCoin_def)
  have c3: "uncollectedCoins gs < 40 \<and> (\<forall>i < 100. \<not> attemptFits rnd gs (k + 2 * i)) \<longrightarrow>
           spawnCoin rnd wall (gs, k) = (gs, k + 200)"
    using spawnCoinLoop_none_fit [of 100 rnd gs k wall] by (simp add: spawnCoin_def)
  define gs0 where "gs0 = speedBoost gs"
  define s1 where "s1 = seedCoins rnd wall (gs0, k)"
  define gs1 where "gs1 = fst s1"
  define k1 where "k1 = snd s1"
  define gs2 where "gs2 = fst (coinTimer rnd wall deltaTime (gs1, k1))"
  define gs' where "gs' = fst (handleSpawning rnd wall deltaTime (gs, k))"
  have v0: "coinView gs0 = coinView gs"
    by (simp add: gs0_def coinView_speedBoost)
  note f0 = coinView_fields [OF v0]
  have v': "coinView gs' = coinView gs2"
    by (simp add: gs'_def gs2_def gs1_def k1_def s1_def gs0_def coinView_handleSpawning)
  note f' = coinView_fields [OF v']
  from seedCoins_grow [of gs0 rnd wall k]
  have g1: "coinsGrow (if gs_coinsInitialized gs then 0 else 20) gs gs1"
    and t1: "gs_coinSpawnTimer gs1 = gs_coinSpawnTimer gs"
      "gs_nextCoinSpawnTime gs1 = gs_nextCoinSpawnTime gs"
    and i1: "gs_coinsInitialized gs1"
    using f0 by (auto simp: gs1_def s1_def intro: coinsGrow_cong)
  have c1': "uncollectedCoins gs1 \<le> 40"
    using cap f0 seedCoins_cap [of gs0 rnd wall k] by (simp add: gs1_def s1_def)
  have c2': "uncollectedCoins gs2 \<le> 40"
    unfolding gs2_def using c1' by (rule coinTimer_cap)
  from rnd have u: "0 \<le> rnd k1" "rnd k1 < 1" "0 \<le> rnd (k1 + 1)" "rnd (k1 + 1) < 1"
    by (simp_all add: unitRange_def)
  have p2: "gs_coinsInitialized (fst (handleSpawning rnd wall deltaTime (gs, k)))"
  proof (cases "gs_coinSpawnTimer gs1 + deltaTime \<ge> gs_nextCoinSpawnTime gs1")
    case True
    from coinTimer_due [OF True, of rnd k1 wall] i1 f' show ?thesis
      by (simp add: gs2_def gs'_def)
  next
    case False
    then have "gs_coinSpawnTimer gs1 + deltaTime < gs_nextCoinSpawnTime gs1" by simp
    from coinTimer_wait [OF this, of rnd wall k1] i1 f' show ?thesis
      by (simp add: gs2_def gs'_def)
  qed
  have p3: "uncollectedCoins (fst (handleSpawning rnd wall deltaTime (gs, k))) \<le> 40"
    using c2' f' by (simp add: gs'_def)
  have p4: "\<exists>added. gs_coins (fst (handleSpawning rnd wall deltaTime (gs, k))) = gs_coins gs @ added \<and>
           length added \<le> (if gs_coinsInitialized gs then 0 else 20) +
             (if gs_coinSpawnTimer gs + deltaTime \<ge> gs_nextCoinSpawnTime gs then 5 else 0) \<and>
           (\<forall>c \<in> set added. \<not> c_collected c)"
  proof (cases "gs_coinSpawnTimer gs + deltaTime \<ge> gs_nextCoinSpawnTime gs")
    case True
    with t1 have due: "gs_coinSpawnTimer gs1 + deltaTime \<ge> gs_nextCoinSpawnTime gs1" by simp
    from coinTimer_due [OF due, of rnd k1 wall]
    have "coinsGrow (nat (numCoins (rnd (k1 + 1)))) gs1 gs2"
      by (simp add: gs2_def)
    moreover from numCoins_range [OF u(3,4)] have "nat (numCoins (rnd (k1 + 1))) \<le> 5" by linarith
    ultimately have "coinsGrow 5 gs1 gs2" by (rule coinsGrow_mono)
    with g1 have "coinsGrow ((if gs_coinsInitialized gs then 0 else 20) + 5) gs gs2"
      by (rule coinsGrow_trans)
    with True f' show ?thesis
      by (simp add: coinsGrow_def gs'_def)
  next
    case False
    with t1 have "gs_coinSpawnTimer gs1 + deltaTime < gs_nextCoinSpawnTime gs1" by simp
    from coinTimer_wait [OF this, of rnd wall k1] have "gs_coins gs2 = gs_coins gs1"
      by (simp add: gs2_def)
    with g1 False f' show ?thesis
      by (simp add: coinsGrow_def gs'_def)
  qed
  have p5: "gs_coinSpawnTimer gs + deltaTime < gs_nextCoinSpawnTime gs \<longrightarrow>
           gs_coinSpawnTimer (fst (handleSpawning rnd wall deltaTime (gs, k))) =
             gs_coinSpawnTimer gs + deltaTime \<and>
           gs_nextCoinSpawnTime (fst (handleSpawning rnd wall deltaTime (gs, k))) =
             gs_nextCoinSpawnTime gs"
  proof
    assume "gs_coinSpawnTimer gs + deltaTime < gs_nextCoinSpawnTime gs"
    with t1 have "gs_coinSpawnTimer gs1 + deltaTime < gs_nextCoinSpawnTime gs1" by simp
    from coinTimer_wait [OF this, of rnd wall k1] t1 f'
    show "gs_coinSpawnTimer (fst (handleSpawning rnd wall deltaTime (gs, k))) =
             gs_coinSpawnTimer gs + deltaTime \<and>
           gs_nextCoinSpawnTime (fst (handleSpawning rnd wall deltaTime (gs, k))) =
             gs_nextCoinSpawnTime gs"
      by (simp add: gs2_def gs'_def)
  qed
  have p6: "gs_coinSpawnTimer gs + deltaTime \<ge> gs_nextCoinSpawnTime gs \<longrightarrow>
           gs_coinSpawnTimer (fst (handleSpawning rnd wall deltaTime (gs, k))) = 0 \<and>
           3 \<le> gs_nextCoinSpawnTime (fst (handleSpawning rnd wall deltaTime (gs, k))) \<and>
           gs_nextCoinSpawnTime (fst (handleSpawning rnd wall deltaTime (gs, k))) < 7"
  proof
    assume "gs_coinSpawnTimer gs + deltaTime \<ge> gs_nextCoinSpawnTime gs"
    with t1 have due: "gs_coinSpawnTimer gs1 + deltaTime \<ge> gs_nextCoinSpawnTime gs1" by simp
    from coinTimer_due [OF due, of rnd k1 wall] nextCoinInterval_range [OF u(1,2)] f'
    show "gs_coinSpawnTimer (fst (handleSpawning rnd wall deltaTime (gs, k))) = 0 \<and>
           3 \<le> gs_nextCoinSpawnTime (fst (handleSpawning rnd wall deltaTime (gs, k))) \<and>
           gs_nextCoinSpawnTime (fst (handleSpawning rnd wall deltaTime (gs, k))) < 7"
      by (simp add: gs2_def gs'_def)
  qed
  have p7: "(\<forall>j. attemptFits rnd gs j) \<longrightarrow>
           (\<exists>added batch.
              gs_coins (fst (handleSpawning rnd wall deltaTime (gs, k))) = gs_coins gs @ added \<and>
              (if gs_coinSpawnTimer gs + deltaTime \<ge> gs_nextCoinSpawnTime gs
               then 3 \<le> batch \<and> batch \<le> 5 else batch = 0) \<and>
              length added =
                min ((if gs_coinsInitialized gs then 0 else 20) + batch)
                    (40 - uncollectedCoins gs))"
  proof
    assume fits: "\<forall>j. attemptFits rnd gs j"
    define seeds :: nat where "seeds = (if gs_coinsInitialized gs then 0 else 20)"
    have "\<exists>added1. gs_coins gs1 = gs_coins gs @ added1 \<and>
            length added1 = min seeds (40 - uncollectedCoins gs) \<and>
            (\<forall>c \<in> set added1. \<not> c_collected c) \<and>
            (\<forall>j. attemptFits rnd gs1 j)"
    proof (cases "gs_coinsInitialized gs")
      case True
      then have "gs1 = gs0"
        using f0 by (simp add: gs1_def s1_def seedCoins_def)
      with True f0 fits show ?thesis
        by (simp add: seeds_def gs0_def attemptFits_speedBoost)
    next
      case False
      let ?g = "gs0\<lparr>gs_coinsInitialized := True\<rparr>"
      have fg: "\<forall>j. attemptFits rnd ?g j"
        using fits by (simp add: gs0_def attemptFits_speedBoost)
      have cg: "uncollectedCoins ?g \<le> 40" and ug: "uncollectedCoins ?g = uncollectedCoins gs"
        using cap f0 by (simp_all add: uncollectedCoins_def)
      from spawnCoins_all_fit [OF fg cg, where wall = wall and n = 20 and k = k] obtain added j
        where st: "(spawnCoin rnd wall ^^ 20) (?g, k) = (?g\<lparr>gs_coins := gs_coins ?g @ added\<rparr>, j)"
          and len: "length added = min 20 (40 - uncollectedCoins ?g)"
          and unc: "\<forall>c \<in> set added. \<not> c_collected c"
        by blast
      have "gs1 = ?g\<lparr>gs_coins := gs_coins ?g @ added\<rparr>"
        using False f0 st by (simp add: gs1_def s1_def seedCoins_def)
      with len unc ug f0 fg False show ?thesis
        by (simp add: seeds_def)
    qed
    then obtain added1 where a1: "gs_coins gs1 = gs_coins gs @ added1"
      and l1: "length added1 = min seeds (40 - uncollectedCoins gs)"
      and u1: "\<forall>c \<in> set added1. \<not> c_collected c"
      and f1: "\<forall>j. attemptFits rnd gs1 j"
      by blast
    have unc1: "uncollectedCoins gs1 = uncollectedCoins gs + length added1"
      using a1 u1 by (simp add: uncollectedCoins_def)
    show "\<exists>added batch.
              gs_coins (fst (handleSpawning rnd wall deltaTime (gs, k))) = gs_coins gs @ added \<and>
              (if gs_coinSpawnTimer gs + deltaTime \<ge> gs_nextCoinSpawnTime gs
               then 3 \<le> batch \<and> batch \<le> 5 else batch = 0) \<and>
              length added =
                min ((if gs_coinsInitialized gs then 0 else 20) + batch)
                    (40 - uncollectedCoins gs)"
    proof (cases "gs_coinSpawnTimer gs + deltaTime \<ge> gs_nextCoinSpawnTime gs")
      case False
      with t1 have "gs_coinSpawnTimer gs1 + deltaTime < gs_nextCoinSpawnTime gs1" by simp
      from coinTimer_wait [OF this, of rnd wall k1] have "gs_coins gs2 = gs_coins gs1"
        by (simp add: gs2_def)
      with a1 l1 False f' show ?thesis
        by (simp add: gs'_def seeds_def)
    next
      case True
      with t1 have due: "gs_coinSpawnTimer gs1 + deltaTime \<ge> gs_nextCoinSpawnTime gs1" by simp
      define batch where "batch = nat (numCoins (rnd (k1 + 1)))"
      from numCoins_range [OF u(3,4)] have b: "3 \<le> batch" "batch \<le> 5"
        unfolding batch_def by linarith+
      let ?g = "gs1\<lparr>gs_coinSpawnTimer := 0, gs_nextCoinSpawnTime := nextCoinInterval (rnd k1)\<rparr>"
      have fg: "\<forall>j. attemptFits rnd ?g j" using f1 by simp
      have ug: "uncollectedCoins ?g = uncollectedCoins gs1"
        by (simp add: uncollectedCoins_def)
      with c1' have cg: "uncollectedCoins ?g \<le> 40" by simp
      from spawnCoins_all_fit [OF fg cg, where wall = wall and n = batch and k = "k1 + 2"] obtain added2 j
        where st: "(spawnCoin rnd wall ^^ batch) (?g, k1 + 2) =
                     (?g\<lparr>gs_coins := gs_coins ?g @ added2\<rparr>, j)"
          and l2: "length added2 = min batch (40 - uncollectedCoins ?g)"
        by blast
      have "gs2 = ?g\<lparr>gs_coins := gs_coins ?g @ added2\<rparr>"
        using due st by (simp add: gs2_def coinTimer_def batch_def)
      then have "gs_coins gs2 = gs_coins gs @ (added1 @ added2)"
        using a1 by simp
      moreover have "length (added1 @ added2) = min (seeds + batch) (40 - uncollectedCoins gs)"
        using l1 l2 ug unc1 cap by (simp only: length_append) arith
      ultimately show ?thesis
        using True b f' by (simp only: gs'_def [symmetric] seeds_def if_True) blast
    qed
  qed
  define S where "S = (spawnCoin rnd wall ^^ (if gs_coinsInitialized gs then 0 else 20)) (gs, k)"
  have p8: "gs_coinSpawnTimer gs + deltaTime < gs_nextCoinSpawnTime gs \<longrightarrow>
           gs_coins (fst (handleSpawning rnd wall deltaTime (gs, k))) = gs_coins (fst S)"
    using handleSpawning_calls [of gs deltaTime rnd wall k] by (simp add: S_def)
  have p9: "gs_coinSpawnTimer gs + deltaTime \<ge> gs_nextCoinSpawnTime gs \<longrightarrow>
           (\<exists>batch. 3 \<le> batch \<and> batch \<le> 5 \<and>
              gs_coins (fst (handleSpawning rnd wall deltaTime (gs, k))) =
                gs_coins (fst ((spawnCoin rnd wall ^^ batch) (fst S, snd S + 2))))"
  proof
    assume d: "gs_coinSpawnTimer gs + deltaTime \<ge> gs_nextCoinSpawnTime gs"
    define batch where "batch = nat (numCoins (rnd (snd S + 1)))"
    from rnd have "0 \<le> rnd (snd S + 1)" "rnd (snd S + 1) < 1"
      by (simp_all add: unitRange_def)
    from numCoins_range [OF this] have "3 \<le> batch" "batch \<le> 5"
      unfolding batch_def by linarith+
    moreover have "gs_coins (fst (handleSpawning rnd wall deltaTime (gs, k))) =
                gs_coins (fst ((spawnCoin rnd wall ^^ batch) (fst S, snd S + 2)))"
      using handleSpawning_calls [of gs deltaTime rnd wall k] d by (simp add: S_def batch_def)
    ultimately show "\<exists>batch. 3 \<le> batch \<and> batch \<le> 5 \<and>
              gs_coins (fst (handleSpawning rnd wall deltaTime (gs, k))) =
                gs_coins (fst ((spawnCoin rnd wall ^^ batch) (fst S, snd S + 2)))"
      by blast
  qed
  from p1 c1 c2 c3 p2 p3 p4 p7 p5 p6 p8 p9 show ?thesis
    unfolding S_def by blast
qed

lemma spawnCoinLoop_fail:
  assumes "list_ex (\<lambda>player. hypot (288 - p_x player) (288 - p_y player) < 200) (gs_players gs)"
  shows "spawnCoinLoop rndEx wall n (gs, k) = (gs, k + 2 * n)"
  using assms
  by (induction n arbitrary: k) (simp_all add: Let_def randomCell_rndEx tileCentre_4)

lemma spawnCoins_fail:
  assumes "list_ex (\<lambda>player. hypot (288 - p_x player) (288 - p_y player) < 200) (gs_players gs)"
    and "uncollectedCoins gs < 40"
  shows "(spawnCoin rndEx wall ^^ n) (gs, k) = (gs, k + 200 * n)"
  using assms
  by (induction n) (simp_all add: spawnCoin_def spawnCoinLoop_fail)

lemma gsStart_fields:
  "gs_players gsStart =
     [newPlayer \<lparr>rp_id = ''a'', rp_name = ''Player_a'', rp_isHost = True, rp_coins = 0\<rparr> 288 288]"
  "gs_coins gsStart = []" "\<not> gs_coinsInitialized gsStart" "gs_coinSpawnTimer gsStart = 0"
  "gs_nextCoinSpawnTime gsStart = 165 / 16" "gs_gameTime gsStart = 0"
  "\<not> gs_speedBoostApplied gsStart"
  by (simp_all add: gsStart_def newGameState_def)

lemma first_step_no_coins:
  "gs_coins (fst (handleSpawning rndEx 0 (1 / 20) (gsStart, 613))) = []"
proof -
  let ?g = "gsStart\<lparr>gs_coinsInitialized := True\<rparr>"
  have sb: "speedBoost gsStart = gsStart"
    by (simp add: speedBoost_def gsStart_fields)
  have close: "list_ex (\<lambda>player. hypot (288 - p_x player) (288 - p_y player) < 200) (gs_players ?g)"
    by (simp add: gsStart_fields newPlayer_def hypot_def)
  have none: "uncollectedCoins ?g < 40"
    by (simp add: uncollectedCoins_def gsStart_fields)
  have "(spawnCoin rndEx 0 ^^ 20) (?g, 613) = (?g, 613 + 200 * 20)"
    using close none by (rule spawnCoins_fail)
  then have seed: "seedCoins rndEx 0 (gsStart, 613) = (?g, 613 + 200 * 20)"
    by (simp add: seedCoins_def gsStart_fields)
  have "fst (coinTimer rndEx 0 (1 / 20) (?g, 613 + 200 * 20)) = ?g\<lparr>gs_coinSpawnTimer := 1 / 20\<rparr>"
    by (simp add: coinTimer_def gsStart_fields)
  then have "coinView (fst (handleSpawning rndEx 0 (1 / 20) (gsStart, 613))) =
      coinView (?g\<lparr>gs_coinSpawnTimer := 1 / 20\<rparr>)"
    by (simp only: coinView_handleSpawning sb seed)
  then show ?thesis
    by (simp add: coinView_def gsStart_fields)
qed

text \<open>
  The claim C9 as stated fails at the start of a match. The first spawn interval is not
  drawn from 3 to 7 seconds: \<^verbatim>\<open>initializeRoom\<close> draws it as \<^verbatim>\<open>10 + Math.random() * 5\<close>.
  And the 20 calls of \<^verbatim>\<open>spawnCoin\<close> of the first spawning step need not leave 20 coins: in
  the match below every attempt falls on the tile of the player, and the step leaves none.
\<close>

theorem first_interval_not_in_range:
  "initializeRoom rndEx 0 [roomEx] ''ROOM01'' (Some 1) 0 = Some (Some gsStart, 613) \<and>
   gs_nextCoinSpawnTime gsStart = 165 / 16 \<and>
   \<not> (3 \<le> gs_nextCoinSpawnTime gsStart \<and> gs_nextCoinSpawnTime gsStart \<le> 7) \<and>
   gs_coins (fst (handleSpawning rndEx 0 (1 / 20) (gsStart, 613))) = []"
  using initializeRoom_example [of 0 0] first_step_no_coins
  by (simp add: gsStart_fields)

lemma unitRange_rndEx: "unitRange rndEx"
  by (simp add: unitRange_def rndEx_def)

lemma unitRange_rndHalf: "unitRange rndHalf"
  by (simp add: unitRange_def rndHalf_def)

lemma randomCell_rndHalf: "randomCell (rndHalf n) = 25"
  by (simp add: randomCell_def rndHalf_def MAP_WIDTH_def)

lemma tileCentre_25: "tileCentre 25 = 1632"
  by (simp add: tileCentre_def TILE_SIZE_def)

lemma tileAt_mapEx: "tileAt mapEx 25 25 = 0"
  unfolding mapEx_def tileAt_def by code_simp

lemma attemptFits_rndHalf: "attemptFits rndHalf gsEx j"
  "attemptFits rndHalf gsDue j"
  by (simp_all add: attemptFits_def randomCell_rndHalf tileCentre_25 gsEx_def gsDue_def
      tileAt_mapEx playerEx_def hypot_less_iff)

lemma attemptFits_rndEx: "\<not> attemptFits rndEx gsEx j"
  by (simp add: attemptFits_def randomCell_rndEx tileCentre_4 gsEx_def playerEx_def hypot_def)

theorem coin_schedule_witness:
  "unitRange rndHalf \<and> uncollectedCoins gsEx \<le> 40 \<and> uncollectedCoins gsDue \<le> 40 \<and>
   unitRange rndEx \<and>
   initializeRoom rndEx 0 [roomEx] ''ROOM01'' (Some 1) 0 = Some (Some gsStart, 613) \<and>
   10 \<le> gs_nextCoinSpawnTime gsStart \<and> gs_nextCoinSpawnTime gsStart < 15 \<and>
   spawnCoin rndHalf 0 (gsEx, 0) = (gsEx\<lparr>gs_coins := [coinAt rndHalf 0 0]\<rparr>, 3) \<and>
   c_x (coinAt rndHalf 0 0) = 1632 \<and> c_y (coinAt rndHalf 0 0) = 1632 \<and>
   \<not> c_collected (coinAt rndHalf 0 0) \<and>
   spawnCoin rndEx 0 (gsEx, 0) = (gsEx, 200) \<and>
   \<not> gs_coinsInitialized gsEx \<and>
   gs_coinSpawnTimer gsEx + 1 / 20 < gs_nextCoinSpawnTime gsEx \<and>
   gs_coinsInitialized (fst (handleSpawning rndHalf 0 (1 / 20) (gsEx, 0))) \<and>
   length (gs_coins (fst (handleSpawning rndHalf 0 (1 / 20) (gsEx, 0)))) = 20 \<and>
   uncollectedCoins (fst (handleSpawning rndHalf 0 (1 / 20) (gsEx, 0))) \<le> 40 \<and>
   gs_coinSpawnTimer (fst (handleSpawning rndHalf 0 (1 / 20) (gsEx, 0))) = 1 / 20 \<and>
   gs_nextCoinSpawnTime (fst (handleSpawning rndHalf 0 (1 / 20) (gsEx, 0))) = 12 \<and>
   gs_coinsInitialized gsDue \<and>
   gs_coinSpawnTimer gsDue + 1 / 20 \<ge> gs_nextCoinSpawnTime gsDue \<and>
   3 \<le> length (gs_coins (fst (handleSpawning rndHalf 0 (1 / 20) (gsDue, 0)))) \<and>
   length (gs_coins (fst (handleSpawning rndHalf 0 (1 / 20) (gsDue, 0)))) \<le> 5 \<and>
   gs_coinSpawnTimer (fst (handleSpawning rndHalf 0 (1 / 20) (gsDue, 0))) = 0 \<and>
   3 \<le> gs_nextCoinSpawnTime (fst (handleSpawning rndHalf 0 (1 / 20) (gsDue, 0))) \<and>
   gs_nextCoinSpawnTime (fst (handleSpawning rndHalf 0 (1 / 20) (gsDue, 0))) < 7"
proof -
  have c: "uncollectedCoins gsEx \<le> 40" "uncollectedCoins gsDue \<le> 40"
    "uncollectedCoins gsEx < 40"
    by (simp_all add: uncollectedCoins_def gsEx_def gsDue_def)
  have e: "gs_coins gsEx = []" "gs_coins gsDue = []" "\<not> gs_coinsInitialized gsEx"
    "gs_coinsInitialized gsDue"
    by (simp_all add: gsEx_def gsDue_def)
  have t: "gs_coinSpawnTimer gsEx + 1 / 20 < gs_nextCoinSpawnTime gsEx"
    "gs_coinSpawnTimer gsDue + 1 / 20 \<ge> gs_nextCoinSpawnTime gsDue"
    "gs_coinSpawnTimer gsEx = 0" "gs_nextCoinSpawnTime gsEx = 12"
    by (simp_all add: gsEx_def gsDue_def)
  have i: "initializeRoom rndEx 0 [roomEx] ''ROOM01'' (Some 1) 0 = Some (Some gsStart, 613)"
    using initializeRoom_example [of 0 0] by simp
  note start = coin_schedule [OF unitRange_rndEx c(1), where deltaTime = "1 / 20" and wall = 0
      and k = 0 and n = 0 and rooms = "[roomEx]" and roomCode = "''ROOM01''"
      and seedArg = "Some 1" and k0 = 0 and gsNew = gsStart and k0' = 613]
  note seed = coin_schedule [OF unitRange_rndHalf c(1), where deltaTime = "1 / 20" and wall = 0
      and k = 0 and n = 0]
  note due = coin_schedule [OF unitRange_rndHalf c(2), where deltaTime = "1 / 20" and wall = 0
      and k = 0 and n = 0]
  from start i
  have a: "10 \<le> gs_nextCoinSpawnTime gsStart" "gs_nextCoinSpawnTime gsStart < 15"
    by blast+
  from start c(3) attemptFits_rndEx
  have fail: "spawnCoin rndEx 0 (gsEx, 0) = (gsEx, 200)"
    by simp
  from seed c(3) attemptFits_rndHalf(1) [of 0]
  have one: "spawnCoin rndHalf 0 (gsEx, 0) = (gsEx\<lparr>gs_coins := [coinAt rndHalf 0 0]\<rparr>, 3)"
    by (simp add: e)
  have coin: "c_x (coinAt rndHalf 0 0) = 1632" "c_y (coinAt rndHalf 0 0) = 1632"
    "\<not> c_collected (coinAt rndHalf 0 0)"
    by (simp_all add: coinAt_def randomCell_rndHalf tileCentre_25)
  from seed t(1)
  have b: "gs_coinsInitialized (fst (handleSpawning rndHalf 0 (1 / 20) (gsEx, 0)))"
    "uncollectedCoins (fst (handleSpawning rndHalf 0 (1 / 20) (gsEx, 0))) \<le> 40"
    "gs_coinSpawnTimer (fst (handleSpawning rndHalf 0 (1 / 20) (gsEx, 0))) = 1 / 20"
    "gs_nextCoinSpawnTime (fst (handleSpawning rndHalf 0 (1 / 20) (gsEx, 0))) = 12"
    by (simp_all add: t(3,4))
  from seed attemptFits_rndHalf(1)
  obtain added batch
    where "gs_coins (fst (handleSpawning rndHalf 0 (1 / 20) (gsEx, 0))) = gs_coins gsEx @ added"
      and "if gs_coinSpawnTimer gsEx + 1 / 20 \<ge> gs_nextCoinSpawnTime gsEx
           then 3 \<le> batch \<and> batch \<le> 5 else batch = 0"
      and "length added = min ((if gs_coinsInitialized gsEx then 0 else 20) + batch)
                    (40 - uncollectedCoins gsEx)"
    by blast
  with t(1) e have twenty: "length (gs_coins (fst (handleSpawning rndHalf 0 (1 / 20) (gsEx, 0)))) = 20"
    by (simp add: uncollectedCoins_def)
  from due attemptFits_rndHalf(2)
  obtain added' batch'
    where "gs_coins (fst (handleSpawning rndHalf 0 (1 / 20) (gsDue, 0))) = gs_coins gsDue @ added'"
      and "if gs_coinSpawnTimer gsDue + 1 / 20 \<ge> gs_nextCoinSpawnTime gsDue
           then 3 \<le> batch' \<and> batch' \<le> 5 else batch' = 0"
      and "length added' = min ((if gs_coinsInitialized gsDue then 0 else 20) + batch')
                    (40 - uncollectedCoins gsDue)"
    by blast
  with t(2) e have batch: "3 \<le> length (gs_coins (fst (handleSpawning rndHalf 0 (1 / 20) (gsDue, 0))))"
    "length (gs_coins (fst (handleSpawning rndHalf 0 (1 / 20) (gsDue, 0)))) \<le> 5"
    by (simp_all add: uncollectedCoins_def)
  from due t(2)
  have d: "gs_coinSpawnTimer (fst (handleSpawning rndHalf 0 (1 / 20) (gsDue, 0))) = 0"
    "3 \<le> gs_nextCoinSpawnTime (fst (handleSpawning rndHalf 0 (1 / 20) (gsDue, 0)))"
    "gs_nextCoinSpawnTime (fst (handleSpawning rndHalf 0 (1 / 20) (gsDue, 0))) < 7"
    by blast+
  from unitRange_rndHalf unitRange_rndEx c(1,2) i a one coin fail e(3,4) t(1,2) b twenty batch d
  show ?thesis by blast
qed

subsection \<open>Properties of the tick\<close>

lemma tickRooms_append:
  "tickRooms pipeline deltaTime currentTime (xs @ ys) st =
     (case tickRooms pipeline deltaTime currentTime xs st of
        (Some thrown, st') \<Rightarrow> (Some thrown, st')
      | (None, st') \<Rightarrow> tickRooms pipeline deltaTime currentTime ys st')"
  by (induction xs arbitrary: st) (auto split: prod.splits option.splits)

lemma updateRoom_other:
  "c \<noteq> roomCode \<Longrightarrow>
     fst (snd (updateRoom pipeline roomCode deltaTime currentTime st)) c = fst st c"
  by (simp add: updateRoom_def split: option.splits prod.splits)

lemma tickRooms_other:
  "c \<notin> r_code ` set xs \<Longrightarrow>
     fst (snd (tickRooms pipeline deltaTime currentTime xs st)) c = fst st c"
proof (induction xs arbitrary: st)
  case Nil
  show ?case by simp
next
  case (Cons room xs)
  then have c: "c \<noteq> r_code room" and rest: "c \<notin> r_code ` set xs" by auto
  show ?case
  proof (cases "r_status room = PLAYING")
    case False
    with Cons.IH [OF rest] show ?thesis by simp
  next
    case True
    obtain out st' where u: "updateRoom pipeline (r_code room) deltaTime currentTime st = (out, st')"
      by (cases "updateRoom pipeline (r_code room) deltaTime currentTime st")
    from updateRoom_other [OF c, of pipeline deltaTime currentTime st] u
    have same: "fst st' c = fst st c" by simp
    show ?thesis
    proof (cases out)
      case None
      with True u same Cons.IH [OF rest, of st'] show ?thesis by simp
    next
      case (Some thrown)
      with True u same show ?thesis by simp
    qed
  qed
qed

text \<open>
  Claim C1, as amended. An exception thrown by the update of a playing room ends the
  tick with that exception: the result is the state that the rooms before it and the
  failed update have left, whatever rooms come after, and a room after it whose code is
  not that of an earlier room has the state it had before the tick. The update of a room
  is not isolated from the updates of the others.
\<close>

theorem tick_stops_at_exception:
  assumes before: "tick pipeline wall before st = (None, st1)"
    and playing: "r_status room = PLAYING"
    and throws: "updateRoom pipeline (r_code room) (1 / 20) wall st1 = (Some thrown, st2)"
  shows "tick pipeline wall (before @ room # rest) st = (Some thrown, st2) \<and>
         (\<forall>r \<in> set rest. r_code r \<notin> r_code ` set (before @ [room]) \<longrightarrow>
            fst st2 (r_code r) = fst st (r_code r))"
proof
  show t: "tick pipeline wall (before @ room # rest) st = (Some thrown, st2)"
    using assms by (simp add: tick_def tickRooms_append)
  show "\<forall>r \<in> set rest. r_code r \<notin> r_code ` set (before @ [room]) \<longrightarrow>
            fst st2 (r_code r) = fst st (r_code r)"
  proof (intro ballI impI)
    fix r
    assume "r \<in> set rest" and n: "r_code r \<notin> r_code ` set (before @ [room])"
    have "tickRooms pipeline (1 / 20) wall (before @ [room]) st = (Some thrown, st2)"
      using assms by (simp add: tick_def tickRooms_append)
    with tickRooms_other [OF n, of pipeline "1 / 20" wall st]
    show "fst st2 (r_code r) = fst st (r_code r)" by simp
  qed
qed

text \<open>
  The claim C1 as stated, that an exception in one room's update does not keep the other
  playing rooms from being updated in the same tick, fails: with two playing rooms and a
  pipeline that throws in the first, the second room, whose own update would advance its
  game time, is left as it was.
\<close>

theorem later_room_not_updated:
  "r_status roomEx = PLAYING \<and> r_status roomB = PLAYING \<and>
   fst (tick pipelineEx 0 [roomEx, roomB] (statesEx, ())) = Some (Thrown ''TypeError'') \<and>
   fst (snd (tick pipelineEx 0 [roomEx, roomB] (statesEx, ()))) ''ROOM02'' = Some gsB \<and>
   fst (updateRoom pipelineEx ''ROOM02'' (1 / 20) 0 (statesEx, ())) = None \<and>
   fst (snd (updateRoom pipelineEx ''ROOM02'' (1 / 20) 0 (statesEx, ()))) ''ROOM02'' =
     Some (gsB\<lparr>gs_gameTime := 401 / 20\<rparr>)"
  by (simp add: tick_def updateRoom_def pipelineEx_def statesEx_def roomEx_def roomB_def
      gsB_def gsEx_def)

theorem tick_stops_at_exception_witness:
  "tick pipelineEx 0 [] (statesEx, ()) = (None, (statesEx, ())) \<and>
   r_status roomEx = PLAYING \<and>
   updateRoom pipelineEx (r_code roomEx) (1 / 20) 0 (statesEx, ()) =
     (Some (Thrown ''TypeError''), (statesEx, ())) \<and>
   tick pipelineEx 0 ([] @ roomEx # [roomB]) (statesEx, ()) =
     (Some (Thrown ''TypeError''), (statesEx, ())) \<and>
   fst (statesEx, ()) (r_code roomB) = Some gsB"
proof -
  have b: "tick pipelineEx 0 [] (statesEx, ()) = (None, (statesEx, ()))"
    by (simp add: tick_def)
  have p: "r_status roomEx = PLAYING"
    by (simp add: roomEx_def)
  have u: "updateRoom pipelineEx (r_code roomEx) (1 / 20) 0 (statesEx, ()) =
     (Some (Thrown ''TypeError''), (statesEx, ()))"
    by (simp add: updateRoom_def pipelineEx_def statesEx_def roomEx_def gsEx_def fun_upd_twist)
  have s: "fst (statesEx, ()) (r_code roomB) = Some gsB"
    by (simp add: statesEx_def roomB_def)
  from tick_stops_at_exception [OF b p u, of "[roomB]"]
  have "tick pipelineEx 0 ([] @ roomEx # [roomB]) (statesEx, ()) =
     (Some (Thrown ''TypeError''), (statesEx, ()))"
    by blast
  with b p u s show ?thesis by blast
qed

end
